theory Spec2Isabelle
  imports Main "HOL-Library.List_Lexorder" "HOL-Library.Char_ord" "HOL-Library.Product_Lexorder"
begin

section \<open>JavaScript values used by scripts/ensure-integrity.js\<close>

text \<open>
  The script works on plain JavaScript objects whose keys are strings. Such an object is
  an association list in insertion order with distinct keys. Assigning to an existing
  key keeps the key's position, assigning to a new key appends it, \<open>delete\<close> drops the
  entry. Enumeration (\<open>Object.keys\<close>, \<open>for ... in\<close>) lists the keys that are array
  indices first, in ascending numeric order, and then all other keys in insertion order.
  The association list holds the own keys of the object only. For a key that names a
  property of \<open>Object.prototype\<close> and is no own key, the script reads the inherited
  value where the functions below read nothing: \<open>name in obj\<close> is true and \<open>obj[name]\<close>
  is a function. The predicate \<open>inherited\<close> lists these names; a statement about a
  lookup by name holds for the names outside of it.
\<close>

type_synonym 'v jsobj = "(string \<times> 'v) list"

definition inherited :: "string \<Rightarrow> bool" where
  "inherited k =
     (k \<in> set [''constructor'', ''__defineGetter__'', ''__defineSetter__'', ''hasOwnProperty'',
        ''__lookupGetter__'', ''__lookupSetter__'', ''isPrototypeOf'', ''propertyIsEnumerable'',
        ''toString'', ''valueOf'', ''__proto__'', ''toLocaleString''])"

fun js_set :: "'v jsobj \<Rightarrow> string \<Rightarrow> 'v \<Rightarrow> 'v jsobj" where
  "js_set [] k v = [(k, v)]"
| "js_set ((k', v') # obj) k v =
     (if k' = k then (k, v) # obj else (k', v') # js_set obj k v)"

definition js_get :: "'v jsobj \<Rightarrow> string \<Rightarrow> 'v option" where
  "js_get obj k = map_of obj k"

definition js_delete :: "'v jsobj \<Rightarrow> string \<Rightarrow> 'v jsobj" where
  "js_delete obj k = filter (\<lambda>kv. fst kv \<noteq> k) obj"

definition is_digit :: "char \<Rightarrow> bool" where
  "is_digit c = (c \<in> set ''0123456789'')"

text \<open>
  An array index is the canonical decimal numeral of a number below \<open>2^32 - 1\<close>. Among
  canonical numerals the numeric order is the order by length and then by characters.
\<close>

definition is_array_index :: "string \<Rightarrow> bool" where
  "is_array_index s =
     (s \<noteq> [] \<and> list_all is_digit s \<and> (s = ''0'' \<or> take 1 s \<noteq> ''0'') \<and>
      (length s < 10 \<or> (length s = 10 \<and> s < ''4294967295'')))"

definition index_key :: "string \<Rightarrow> nat \<times> string" where
  "index_key k = (length k, k)"

definition js_entries :: "'v jsobj \<Rightarrow> 'v jsobj" where
  "js_entries obj =
     sort_key (\<lambda>kv. index_key (fst kv)) (filter (\<lambda>kv. is_array_index (fst kv)) obj) @
     filter (\<lambda>kv. \<not> is_array_index (fst kv)) obj"

definition js_keys :: "'v jsobj \<Rightarrow> string list" where
  "js_keys obj = map fst (js_entries obj)"

text \<open>
  \<open>!obj[k]\<close> for an object with string values: true when the key is absent
  (\<open>undefined\<close>) and when its value is the empty string.
\<close>

definition js_not :: "string option \<Rightarrow> bool" where
  "js_not v = (case v of None \<Rightarrow> True | Some s \<Rightarrow> s = [])"

text \<open>\<open>s.split(c)\<close> for a separator of one character: always at least one piece.\<close>

fun split :: "char \<Rightarrow> string \<Rightarrow> string list" where
  "split c [] = [[]]"
| "split c (x # xs) =
     (if x = c then [] # split c xs
      else (case split c xs of [] \<Rightarrow> [[x]] | p # ps \<Rightarrow> (x # p) # ps))"

text \<open>\<open>lines.join(sep)\<close>.\<close>

fun join :: "string \<Rightarrow> string list \<Rightarrow> string" where
  "join sep [] = []"
| "join sep [l] = l"
| "join sep (l # ls) = l @ sep @ join sep ls"

text \<open>\<open>s.indexOf(t) === -1\<close> is \<open>\<not> contains s t\<close>.\<close>

fun contains :: "string \<Rightarrow> string \<Rightarrow> bool" where
  "contains [] t = (t = [])"
| "contains (x # xs) t = (take (length t) (x # xs) = t \<or> contains xs t)"

section \<open>Import specifiers\<close>

text \<open>
  The callback of \<open>names.map\<close> in \<open>ensurePackage\<close> (lines 88 to 94): the package a
  module specifier belongs to. \<open>parts[1]\<close> of a scoped specifier without a slash is
  \<open>undefined\<close>, which the concatenation prints.
\<close>

definition packageName :: "string \<Rightarrow> string" where
  "packageName name =
     (case split (CHR ''/'') name of
        [] \<Rightarrow> ''undefined''
      | p0 # ps \<Rightarrow>
          if take 1 name = ''@''
          then p0 @ ''/'' @ (case ps of [] \<Rightarrow> ''undefined'' | p1 # _ \<Rightarrow> p1)
          else p0)"

section \<open>Manifests, files and the state of a run\<close>

text \<open>
  A manifest (\<open>package.json\<close>) has the four fields the script reads; its other fields
  are never touched. The text of a manifest file is the manifest it parses to, and
  whether that text is exactly \<open>JSON.stringify(content, null, 2) + '\n'\<close>: two texts
  are equal when both components are.
\<close>

record package =
  name :: string
  version :: string
  dependencies :: "string jsobj"
  devDependencies :: "string jsobj"

record manifest_file =
  content :: package
  formatted :: bool

datatype error = TypeError | CannotFindModule | ENOENT

text \<open>The syntax tree of a TypeScript source file, as far as \<open>getImports\<close> looks at it.\<close>

datatype kind =
  ImportDeclaration string
| ImportEqualsDeclaration "string option"
| OtherKind

datatype node = Node kind "node list"

text \<open>
  What a run reads and never changes: the directory listings and the collaborators that
  are not part of the script (the TypeScript parser, \<open>./get-dependency\<close>,
  \<open>sort-package-json\<close>). Directories stand for the manifest inside them.
\<close>

record env =
  basePath :: string
  lernaPackages :: "string list"
  localPackages :: "string list"
  sourceFiles :: "string \<Rightarrow> string list"
  tsconfigJson :: bool
  createSourceFile :: "string \<Rightarrow> node"
  getDependency :: "string \<Rightarrow> string"
  sortPackageJson :: "package \<Rightarrow> package"

text \<open>
  The disk (\<open>manifests\<close>, \<open>files\<close>) and the variables of the process. \<open>cache\<close> is
  the module cache of \<open>require\<close>: the manifest objects, by directory. \<open>pkgData[name]\<close>
  and \<open>pkgPaths[name]\<close> are assigned together, so \<open>pkgData\<close> is the object cached for
  \<open>pkgPaths[name]\<close>.
\<close>

record state =
  manifests :: "string \<rightharpoonup> manifest_file"
  files :: "string \<rightharpoonup> string"
  cache :: "string \<rightharpoonup> package"
  pkgPaths :: "string jsobj"
  pkgNames :: "string \<rightharpoonup> string"
  seenDeps :: "string \<rightharpoonup> string"

definition pkgData :: "state \<Rightarrow> string \<Rightarrow> package option" where
  "pkgData st nm = (case js_get (pkgPaths st) nm of None \<Rightarrow> None | Some p \<Rightarrow> cache st p)"

definition fresh :: "state \<Rightarrow> state" where
  "fresh st = st\<lparr>cache := Map.empty, pkgPaths := [], pkgNames := Map.empty,
     seenDeps := Map.empty\<rparr>"

definition MISSING :: "string list jsobj" where
  "MISSING = [(''@jupyterlab/buildutils'', [''path''])]"

definition UNUSED :: "string list jsobj" where
  "UNUSED =
     [(''@jupyterlab/apputils-extension'', [''es6-promise'']),
      (''@jupyterlab/theme-dark-extension'', [''font-awesome'']),
      (''@jupyterlab/theme-light-extension'', [''font-awesome'']),
      (''@jupyterlab/vega2-extension'', [''d3'', ''vega'', ''vega-lite''])]"

text \<open>
  \<open>T[pkgName] && T[pkgName].indexOf(name) !== -1\<close>, for a package name that is an own key
  of the table or no key at all. (For a package named like a property of
  \<open>Object.prototype\<close> the script throws a \<open>TypeError\<close> here.)
\<close>

definition listed :: "string list jsobj \<Rightarrow> string \<Rightarrow> string \<Rightarrow> bool" where
  "listed T pkgName nm = (case js_get T pkgName of None \<Rightarrow> False | Some l \<Rightarrow> nm \<in> set l)"

definition bindE :: "error + 'a \<Rightarrow> ('a \<Rightarrow> error + 'b) \<Rightarrow> error + 'b" where
  "bindE m f = (case m of Inl err \<Rightarrow> Inl err | Inr x \<Rightarrow> f x)"

fun foldE :: "('a \<Rightarrow> 's \<Rightarrow> error + 's) \<Rightarrow> 'a list \<Rightarrow> 's \<Rightarrow> error + 's" where
  "foldE f [] s = Inr s"
| "foldE f (x # xs) s = bindE (f x s) (foldE f xs)"

section \<open>The functions of the script\<close>

text \<open>
  \<open>getImports\<close>: the walk pushes the specifier of every import declaration, then visits
  the children. An import-equals declaration whose module reference has no
  \<open>expression\<close> (an alias of a qualified name) makes the property access throw.
\<close>

fun handleNode :: "node \<Rightarrow> string list \<Rightarrow> error + string list"
  and forEachChild :: "node list \<Rightarrow> string list \<Rightarrow> error + string list" where
  "handleNode (Node k children) imports =
     (case k of
        ImportDeclaration text \<Rightarrow> forEachChild children (imports @ [text])
      | ImportEqualsDeclaration None \<Rightarrow> Inl TypeError
      | ImportEqualsDeclaration (Some text) \<Rightarrow> forEachChild children (imports @ [text])
      | OtherKind \<Rightarrow> forEachChild children imports)"
| "forEachChild [] imports = Inr imports"
| "forEachChild (child # children) imports =
     bindE (handleNode child imports) (forEachChild children)"

definition getImports :: "node \<Rightarrow> error + string list" where
  "getImports sourceFile = handleNode sourceFile []"

definition require :: "string \<Rightarrow> state \<Rightarrow> error + (package \<times> state)" where
  "require dir st =
     (case cache st dir of
        Some p \<Rightarrow> Inr (p, st)
      | None \<Rightarrow>
          (case manifests st dir of
             None \<Rightarrow> Inl CannotFindModule
           | Some f \<Rightarrow> Inr (content f, st\<lparr>cache := (cache st)(dir \<mapsto> content f)\<rparr>)))"

definition ensurePackageData :: "env \<Rightarrow> package \<Rightarrow> string \<Rightarrow> state \<Rightarrow> error + (bool \<times> state)" where
  "ensurePackageData e data dir st =
     (let text = \<lparr>content = sortPackageJson e data, formatted = True\<rparr> in
      case manifests st dir of
        None \<Rightarrow> Inl ENOENT
      | Some orig \<Rightarrow>
          if text \<noteq> orig
          then Inr (True, st\<lparr>manifests := (manifests st)(dir \<mapsto> text)\<rparr>)
          else Inr (False, st))"

text \<open>
  \<open>ensureAllPackages\<close>. The loop body for one entry of \<open>localPackages\<close> works on the
  dependencies of the manifest of \<open>packages/all-packages\<close>, the lines of the new index
  and the messages. A directory without a loaded manifest has the name \<open>undefined\<close>.
\<close>

definition allPackagesPath :: "env \<Rightarrow> string" where
  "allPackagesPath e = basePath e @ ''/packages/all-packages''"

definition indexPath :: "env \<Rightarrow> string" where
  "indexPath e = allPackagesPath e @ ''/src/index.ts''"

definition nameOf :: "state \<Rightarrow> string \<Rightarrow> string" where
  "nameOf st pkgPath = (case pkgNames st pkgPath of None \<Rightarrow> ''undefined'' | Some n \<Rightarrow> n)"

definition importLine :: "string \<Rightarrow> string" where
  "importLine nm = ''import \"'' @ nm @ ''\";\<newline>''"

definition ensureDependency :: "state \<Rightarrow> string \<Rightarrow> string jsobj \<Rightarrow> error + (bool \<times> string jsobj)" where
  "ensureDependency st nm deps =
     (if js_not (js_get deps nm)
      then (case pkgData st nm of
              None \<Rightarrow> Inl TypeError
            | Some data \<Rightarrow> Inr (False, js_set deps nm (''^'' @ version data)))
      else Inr (True, deps))"

definition allPackagesStep ::
  "env \<Rightarrow> state \<Rightarrow> string \<Rightarrow> string \<Rightarrow> string jsobj \<times> string list \<times> string list \<Rightarrow>
   error + (string jsobj \<times> string list \<times> string list)" where
  "allPackagesStep e st index pkgPath acc =
     (case acc of (deps, lines, messages) \<Rightarrow>
        if pkgPath = allPackagesPath e then Inr acc
        else
          bindE (ensureDependency st (nameOf st pkgPath) deps) (\<lambda>(valid, deps').
            Inr (deps', lines @ [importLine (nameOf st pkgPath)],
              if \<not> (valid \<and> contains index (nameOf st pkgPath))
              then messages @ [''Updated: '' @ nameOf st pkgPath]
              else messages)))"

definition writeIndex :: "env \<Rightarrow> string \<Rightarrow> string list \<Rightarrow> string list \<times> state \<Rightarrow> string list \<times> state" where
  "writeIndex e index lines acc =
     (case acc of (messages, st) \<Rightarrow>
        if join ''\<newline>'' lines \<noteq> index
        then (messages @ [''Index changed''],
              st\<lparr>files := (files st)(indexPath e \<mapsto> join ''\<newline>'' lines)\<rparr>)
        else (messages, st))"

definition changed :: "string list \<Rightarrow> bool \<times> state \<Rightarrow> string list \<times> state" where
  "changed messages r =
     (case r of (c, st) \<Rightarrow> (if c then messages @ [''Package data changed''] else messages, st))"

definition ensureAllPackages :: "env \<Rightarrow> state \<Rightarrow> error + (string list \<times> state)" where
  "ensureAllPackages e st =
     bindE (require (allPackagesPath e) st) (\<lambda>(allPackageData, st1).
       if \<not> tsconfigJson e then Inl CannotFindModule
       else
         (case files st1 (indexPath e) of
            None \<Rightarrow> Inl ENOENT
          | Some index \<Rightarrow>
              bindE (foldE (allPackagesStep e st1 index) (localPackages e)
                       (dependencies allPackageData, take 3 (split (CHR ''\<newline>'') index), []))
                (\<lambda>(deps, lines, messages).
                   bindE (ensurePackageData e (allPackageData\<lparr>dependencies := deps\<rparr>)
                            (allPackagesPath e)
                            (st1\<lparr>cache := (cache st1)(allPackagesPath e \<mapsto>
                                   allPackageData\<lparr>dependencies := deps\<rparr>)\<rparr>))
                     (\<lambda>r. Inr (writeIndex e index lines (changed messages r))))))"

text \<open>
  \<open>ensurePackage\<close>. The cached lookup of lines 49 to 52 (and 57 to 60, 106 to 109)
  returns the version and the cache.
\<close>

definition resolve :: "env \<Rightarrow> string \<Rightarrow> (string \<rightharpoonup> string) \<Rightarrow> string \<times> (string \<rightharpoonup> string)" where
  "resolve e nm seen =
     (case seen nm of
        None \<Rightarrow> (getDependency e nm, seen(nm \<mapsto> getDependency e nm))
      | Some v \<Rightarrow> (v, seen))"

definition consistent ::
  "env \<Rightarrow> string \<Rightarrow> (string \<rightharpoonup> string) \<times> string jsobj \<Rightarrow> (string \<rightharpoonup> string) \<times> string jsobj" where
  "consistent e nm acc =
     (case acc of (seen, deps) \<Rightarrow>
        (snd (resolve e nm seen), js_set deps nm (fst (resolve e nm seen))))"

definition missingStep ::
  "env \<Rightarrow> string \<Rightarrow> string \<Rightarrow> string list \<times> (string \<rightharpoonup> string) \<times> string jsobj \<Rightarrow>
   string list \<times> (string \<rightharpoonup> string) \<times> string jsobj" where
  "missingStep e pkgName nm acc =
     (case acc of (messages, seen, deps) \<Rightarrow>
        if listed MISSING pkgName nm then acc
        else if nm = ''.'' \<or> nm = ''..'' then acc
        else if js_not (js_get deps nm)
        then (messages @ [''Missing dependency: '' @ nm], snd (resolve e nm seen),
              js_set deps nm (fst (resolve e nm seen)))
        else acc)"

definition unusedStep ::
  "string \<Rightarrow> string list \<Rightarrow> string \<Rightarrow> string list \<times> string jsobj \<Rightarrow> string list \<times> string jsobj" where
  "unusedStep pkgName names nm acc =
     (case acc of (messages, deps) \<Rightarrow>
        if listed UNUSED pkgName nm then acc
        else if nm \<notin> set names
        then (messages @ [''Unused dependency: '' @ nm], js_delete deps nm)
        else acc)"

definition readImports :: "env \<Rightarrow> state \<Rightarrow> string \<Rightarrow> string list \<Rightarrow> error + string list" where
  "readImports e st fileName imports =
     (case files st fileName of
        None \<Rightarrow> Inl ENOENT
      | Some text \<Rightarrow> bindE (getImports (createSourceFile e text)) (\<lambda>is. Inr (imports @ is)))"

text \<open>Lines 78 to 94: the package names of the imports of all source files.\<close>

definition importNames :: "env \<Rightarrow> state \<Rightarrow> string \<Rightarrow> error + string list" where
  "importNames e st dname =
     bindE (foldE (readImports e st) (sourceFiles e dname) []) (\<lambda>imports.
       Inr (map packageName (sort (remdups imports))))"

text \<open>Lines 67 to 127, on the manifest object as it is after lines 47 to 65.\<close>

definition checkImports ::
  "env \<Rightarrow> string \<Rightarrow> string \<Rightarrow> string list \<Rightarrow> state \<Rightarrow> error + (string list \<times> state)" where
  "checkImports e pkgName dname messages st =
     (case cache st dname of
        None \<Rightarrow> Inl TypeError
      | Some data \<Rightarrow>
          if sourceFiles e dname = []
          then bindE (ensurePackageData e data dname st) (\<lambda>r. Inr (changed messages r))
          else
            bindE (importNames e st dname) (\<lambda>names.
              let m = fold (missingStep e pkgName) names (messages, seenDeps st, dependencies data);
                  u = fold (unusedStep pkgName names) (js_keys (snd (snd m))) (fst m, snd (snd m));
                  data' = data\<lparr>dependencies := snd u\<rparr>
              in bindE (ensurePackageData e data' dname
                          (st\<lparr>seenDeps := fst (snd m), cache := (cache st)(dname \<mapsto> data')\<rparr>))
                   (\<lambda>r. Inr (changed (fst u) r))))"

text \<open>Lines 47 to 61: every declared version becomes the cached one.\<close>

definition verifyDependencies :: "env \<Rightarrow> string \<Rightarrow> package \<Rightarrow> state \<Rightarrow> state" where
  "verifyDependencies e dname data st =
     (let d = fold (consistent e) (js_keys (dependencies data)) (seenDeps st, dependencies data);
          v = fold (consistent e) (js_keys (devDependencies data)) (fst d, devDependencies data)
      in st\<lparr>seenDeps := fst v,
            cache := (cache st)(dname \<mapsto>
              data\<lparr>dependencies := snd d, devDependencies := snd v\<rparr>)\<rparr>)"

definition ensurePackage :: "env \<Rightarrow> string \<Rightarrow> state \<Rightarrow> error + (string list \<times> state)" where
  "ensurePackage e pkgName st =
     (case js_get (pkgPaths st) pkgName of
        None \<Rightarrow> Inl TypeError
      | Some dname \<Rightarrow>
          (case cache st dname of
             None \<Rightarrow> Inl TypeError
           | Some data \<Rightarrow>
               bindE (if pkgName = ''@jupyterlab/all-packages''
                      then ensureAllPackages e (verifyDependencies e dname data st)
                      else Inr ([], verifyDependencies e dname data st))
                 (\<lambda>(messages, st2). checkImports e pkgName dname messages st2)))"

text \<open>\<open>ensureTop\<close>: the loop body copies the devDependencies of one local package.\<close>

definition hoist :: "env \<Rightarrow> string \<Rightarrow> state \<Rightarrow> error + state" where
  "hoist e pkgPath st =
     (case pkgData st (nameOf st pkgPath) of
        None \<Rightarrow> Inl TypeError
      | Some data \<Rightarrow>
          (case cache st (basePath e) of
             None \<Rightarrow> Inl TypeError
           | Some localData \<Rightarrow>
               Inr (st\<lparr>cache := (cache st)(basePath e \<mapsto>
                 localData\<lparr>devDependencies :=
                   fold (\<lambda>kv obj. js_set obj (fst kv) (snd kv))
                     (js_entries (devDependencies data)) (devDependencies localData)\<rparr>)\<rparr>)))"

definition ensureTop :: "env \<Rightarrow> state \<Rightarrow> error + (string option \<times> state)" where
  "ensureTop e st =
     bindE (require (basePath e) st) (\<lambda>(localData, st1).
       bindE (foldE (hoist e) (localPackages e) st1) (\<lambda>st2.
         (case cache st2 (basePath e) of
            None \<Rightarrow> Inl TypeError
          | Some localData' \<Rightarrow>
              bindE (ensurePackageData e localData' (basePath e) st2) (\<lambda>(c, st3).
                Inr (if c then Some ''updated'' else None, st3)))))"

text \<open>
  \<open>ensureIntegrity\<close>. A directory whose manifest cannot be loaded is skipped. The
  report maps \<open>top\<close> to a string and a package name to the list of its messages.
\<close>

datatype report = Top string | Messages "string list"

definition loadPackage :: "string \<Rightarrow> state \<Rightarrow> state" where
  "loadPackage pkgPath st =
     (case require pkgPath st of
        Inl err \<Rightarrow> st
      | Inr (package, st') \<Rightarrow>
          st'\<lparr>pkgPaths := js_set (pkgPaths st') (name package) pkgPath,
              pkgNames := (pkgNames st')(pkgPath \<mapsto> name package)\<rparr>)"

definition validate :: "env \<Rightarrow> string \<Rightarrow> report jsobj \<times> state \<Rightarrow> error + (report jsobj \<times> state)" where
  "validate e nm acc =
     (case acc of (messages, st) \<Rightarrow>
        bindE (ensurePackage e nm st) (\<lambda>(pkgMessages, st').
          Inr (if length pkgMessages > 0 then js_set messages nm (Messages pkgMessages)
               else messages, st')))"

definition ensureIntegrity :: "env \<Rightarrow> state \<Rightarrow> error + (report jsobj \<times> state)" where
  "ensureIntegrity e st =
     bindE (ensureTop e (fold loadPackage (lernaPackages e) st)) (\<lambda>(topMessage, st1).
       foldE (validate e) (js_keys (pkgPaths st1))
         (case topMessage of None \<Rightarrow> [] | Some m \<Rightarrow> js_set [] ''top'' (Top m), st1))"

definition canonical :: "env \<Rightarrow> (string \<rightharpoonup> string) \<Rightarrow> string \<Rightarrow> string" where
  "canonical e seen nm = fst (resolve e nm seen)"

definition unusedIn :: "string \<Rightarrow> string list \<Rightarrow> string \<Rightarrow> bool" where
  "unusedIn p names k = (\<not> listed UNUSED p k \<and> k \<notin> set names)"

definition caret :: "state \<Rightarrow> string \<Rightarrow> string \<Rightarrow> bool" where
  "caret st k v = (\<exists>q. pkgData st k = Some q \<and> v = ''^'' @ version q)"

definition pruned :: "string \<Rightarrow> string list \<Rightarrow> string jsobj \<Rightarrow> string jsobj" where
  "pruned p names deps = filter (\<lambda>kv. \<not> unusedIn p names (fst kv)) deps"

definition finding :: "string \<Rightarrow> string \<Rightarrow> bool" where
  "finding p m =
     ((\<exists>n. m = ''Updated: '' @ n) \<or> m = ''Package data changed'' \<or> m = ''Index changed'' \<or>
      (\<exists>n. m = ''Missing dependency: '' @ n \<and> n \<noteq> ''.'' \<and> n \<noteq> ''..'' \<and> \<not> listed MISSING p n) \<or>
      (\<exists>n. m = ''Unused dependency: '' @ n \<and> \<not> listed UNUSED p n))"

definition settled :: "(string \<rightharpoonup> string) \<Rightarrow> string jsobj \<Rightarrow> bool" where
  "settled seen obj = (\<forall>k v. js_get obj k = Some v \<longrightarrow> seen k = Some v)"

definition alike :: "package \<Rightarrow> package \<Rightarrow> bool" where
  "alike a b =
     (name b = name a \<and> version b = version a \<and>
      map fst (devDependencies b) = map fst (devDependencies a))"

definition evolved :: "state \<Rightarrow> state \<Rightarrow> bool" where
  "evolved st st' =
     (pkgPaths st' = pkgPaths st \<and> pkgNames st' = pkgNames st \<and>
      (\<forall>q obj. cache st q = Some obj \<longrightarrow> (\<exists>obj'. cache st' q = Some obj' \<and> alike obj obj')))"

definition registered :: "state \<Rightarrow> bool" where
  "registered st =
     (\<forall>n d. js_get (pkgPaths st) n = Some d \<longrightarrow> (\<exists>obj. cache st d = Some obj \<and> name obj = n))"

definition tidy :: "env \<Rightarrow> state \<Rightarrow> string \<Rightarrow> package \<Rightarrow> bool" where
  "tidy e st d obj =
     (settled (seenDeps st) (devDependencies obj) \<and>
      (\<forall>k v. js_get (dependencies obj) k = Some v \<longrightarrow>
         seenDeps st k = Some v \<or> (d = allPackagesPath e \<and> caret st k v)))"

definition c7_env :: env where
  "c7_env =
     \<lparr>basePath = ''/repo'',
      lernaPackages = [''/repo/packages/all-packages'', ''/repo/packages/meta''],
      localPackages = [''/repo/packages/all-packages'', ''/repo/packages/meta''],
      sourceFiles = (\<lambda>d. if d = ''/repo/packages/all-packages''
                         then [''/repo/packages/all-packages/src/index.ts''] else []),
      tsconfigJson = True,
      createSourceFile = (\<lambda>text. Node OtherKind []),
      getDependency = (\<lambda>n. ''^1.0.0''),
      sortPackageJson = (\<lambda>p. p)\<rparr>"

definition c7_disk :: state where
  "c7_disk =
     \<lparr>manifests =
        [''/repo'' \<mapsto> \<lparr>content = \<lparr>name = ''root'', version = ''0.1.0'', dependencies = [],
            devDependencies = []\<rparr>, formatted = True\<rparr>,
         ''/repo/packages/all-packages'' \<mapsto> \<lparr>content = \<lparr>name = ''@jupyterlab/everything'',
            version = ''0.1.0'', dependencies = [], devDependencies = []\<rparr>, formatted = True\<rparr>,
         ''/repo/packages/meta'' \<mapsto> \<lparr>content = \<lparr>name = ''@jupyterlab/all-packages'',
            version = ''0.1.0'', dependencies = [], devDependencies = []\<rparr>, formatted = True\<rparr>],
      files =
        [''/repo/packages/all-packages/src/index.ts'' \<mapsto>
           ''// Copyright\<newline>// Distributed under the BSD License\<newline>''],
      cache = Map.empty, pkgPaths = [], pkgNames = Map.empty, seenDeps = Map.empty\<rparr>"

definition c7_loaded :: state where
  "c7_loaded = fold loadPackage (lernaPackages c7_env) c7_disk"

definition sync_message :: "string \<Rightarrow> bool" where
  "sync_message m =
     ((\<exists>n. m = ''Updated: '' @ n) \<or> m = ''Package data changed'' \<or> m = ''Index changed'')"

definition copyEntries :: "string jsobj \<Rightarrow> string jsobj \<Rightarrow> string jsobj" where
  "copyEntries es obj = fold (\<lambda>kv obj. js_set obj (fst kv) (snd kv)) es obj"

definition aliased :: "env \<Rightarrow> state \<Rightarrow> string \<Rightarrow> bool" where
  "aliased e s q = (js_get (pkgPaths s) (nameOf s q) = Some (basePath e))"

text \<open>Every cached object is the content of the manifest of its directory.\<close>

definition coherent :: "state \<Rightarrow> bool" where
  "coherent st = (\<forall>d p. cache st d = Some p \<longrightarrow> (\<exists>f. manifests st d = Some f \<and> content f = p))"

text \<open>
  The names that lines 257 to 269 register, in this order: one for each directory whose
  manifest can be read.
\<close>

definition loadedNames :: "state \<Rightarrow> string list \<Rightarrow> string list" where
  "loadedNames st paths =
     concat (map (\<lambda>d. case manifests st d of None \<Rightarrow> [] | Some f \<Rightarrow> [name (content f)]) paths)"

text \<open>The elements of a list in the order of their first occurrence.\<close>

fun firsts :: "string list \<Rightarrow> string list" where
  "firsts [] = []"
| "firsts (x # xs) = x # removeAll x (firsts xs)"

text \<open>
  The order in which \<open>for ... in\<close> lists keys that were inserted in the order \<open>ks\<close>.
\<close>

definition enumeration :: "string list \<Rightarrow> string list" where
  "enumeration ks =
     sort_key index_key (filter is_array_index ks) @ filter (\<lambda>k. \<not> is_array_index k) ks"

text \<open>The line that line 165 generates for a name, without its line break.\<close>

definition importStatement :: "string \<Rightarrow> string" where
  "importStatement nm = ''import \"'' @ nm @ ''\";''"

text \<open>How many lines of a source text are the import of a name.\<close>

definition references :: "string \<Rightarrow> string \<Rightarrow> nat" where
  "references text nm = count_list (split (CHR ''\<newline>'') text) (importStatement nm)"

text \<open>
  No registered package, and no key of the dependencies or devDependencies of a
  registered package, is named like a property of \<open>Object.prototype\<close>.
\<close>

definition plain :: "state \<Rightarrow> bool" where
  "plain st =
     list_all (\<lambda>n. \<not> inherited n \<and>
         (case pkgData st n of
            None \<Rightarrow> True
          | Some obj \<Rightarrow>
              list_all (\<lambda>k. \<not> inherited k)
                (map fst (dependencies obj) @ map fst (devDependencies obj))))
       (js_keys (pkgPaths st))"

section \<open>A concrete workspace\<close>

text \<open>
  The example of the specification: package \<open>A\<close> imports \<open>lodash\<close> and \<open>./util\<close>
  and declares nothing, package \<open>B\<close> declares \<open>left-pad\<close> and imports nothing.
  Package \<open>C\<close> declares \<open>left-pad\<close> too and has no source file, and the theme
  declares \<open>font-awesome\<close>, which the table \<open>UNUSED\<close> lists for it, and imports
  nothing. The parser is a table from the source texts to their trees.
\<close>

definition ex_tree :: "string \<Rightarrow> node" where
  "ex_tree text =
     (if text = ''import * as _ from \"lodash\"; import \"./util\";''
      then Node OtherKind
             [Node (ImportDeclaration ''lodash'') [], Node (ImportDeclaration ''./util'') []]
      else Node OtherKind [])"

definition ex_env :: env where
  "ex_env =
     \<lparr>basePath = ''/repo'',
      lernaPackages = [''/repo/packages/a'', ''/repo/packages/b'', ''/repo/packages/c'',
        ''/repo/packages/theme-dark-extension''],
      localPackages = [''/repo/packages/a'', ''/repo/packages/b'', ''/repo/packages/c'',
        ''/repo/packages/theme-dark-extension''],
      sourceFiles = (\<lambda>d. if d = ''/repo/packages/a'' then [''/repo/packages/a/src/index.ts'']
                         else if d = ''/repo/packages/b'' then [''/repo/packages/b/src/index.ts'']
                         else if d = ''/repo/packages/theme-dark-extension''
                         then [''/repo/packages/theme-dark-extension/src/index.ts'']
                         else []),
      tsconfigJson = True,
      createSourceFile = ex_tree,
      getDependency = (\<lambda>n. ''^1.0.0''),
      sortPackageJson = (\<lambda>p. p)\<rparr>"

definition ex_disk :: state where
  "ex_disk =
     \<lparr>manifests =
        [''/repo'' \<mapsto> \<lparr>content = \<lparr>name = ''root'', version = ''0.1.0'', dependencies = [],
            devDependencies = []\<rparr>, formatted = True\<rparr>,
         ''/repo/packages/a'' \<mapsto> \<lparr>content = \<lparr>name = ''A'', version = ''0.1.0'',
            dependencies = [], devDependencies = [(''typescript'', ''~2.4.1'')]\<rparr>,
            formatted = True\<rparr>,
         ''/repo/packages/b'' \<mapsto> \<lparr>content = \<lparr>name = ''B'', version = ''0.1.0'',
            dependencies = [(''left-pad'', ''^1.0.0'')], devDependencies = []\<rparr>,
            formatted = True\<rparr>,
         ''/repo/packages/c'' \<mapsto> \<lparr>content = \<lparr>name = ''C'', version = ''0.1.0'',
            dependencies = [(''left-pad'', ''^1.0.0'')], devDependencies = []\<rparr>,
            formatted = True\<rparr>,
         ''/repo/packages/theme-dark-extension'' \<mapsto>
           \<lparr>content = \<lparr>name = ''@jupyterlab/theme-dark-extension'', version = ''0.1.0'',
            dependencies = [(''font-awesome'', ''^1.0.0'')], devDependencies = []\<rparr>,
            formatted = True\<rparr>],
      files =
        [''/repo/packages/a/src/index.ts'' \<mapsto> ''import * as _ from \"lodash\"; import \"./util\";'',
         ''/repo/packages/b/src/index.ts'' \<mapsto> ''export const b = 1;'',
         ''/repo/packages/theme-dark-extension/src/index.ts'' \<mapsto> ''export const t = 1;''],
      cache = Map.empty, pkgPaths = [], pkgNames = Map.empty, seenDeps = Map.empty\<rparr>"

text \<open>The state of the process after the manifests are loaded (lines 256 to 269).\<close>

definition ex_loaded :: state where
  "ex_loaded = fold loadPackage (lernaPackages ex_env) ex_disk"

text \<open>
  A workspace with the all-packages package: \<open>a\<close> has no source file, \<open>b\<close> imports and
  declares \<open>a\<close>. The index of the all-packages package already imports both, its
  manifest declares neither. The version lookup answers \<open>~1.0.0\<close> for every name.
\<close>

definition agg_tree :: "string \<Rightarrow> node" where
  "agg_tree text =
     (if text = ''// Copyright\<newline>// License\<newline>\<newline>import \"a\";\<newline>\<newline>import \"b\";\<newline>''
      then Node OtherKind [Node (ImportDeclaration ''a'') [], Node (ImportDeclaration ''b'') []]
      else if text = ''import \"a\";''
      then Node OtherKind [Node (ImportDeclaration ''a'') []]
      else Node OtherKind [])"

definition agg_env :: env where
  "agg_env =
     \<lparr>basePath = ''/repo'',
      lernaPackages = [''/repo/packages/a'', ''/repo/packages/all-packages'', ''/repo/packages/b''],
      localPackages = [''/repo/packages/a'', ''/repo/packages/all-packages'', ''/repo/packages/b''],
      sourceFiles = (\<lambda>d. if d = ''/repo/packages/all-packages''
                         then [''/repo/packages/all-packages/src/index.ts'']
                         else if d = ''/repo/packages/b'' then [''/repo/packages/b/src/index.ts'']
                         else []),
      tsconfigJson = True,
      createSourceFile = agg_tree,
      getDependency = (\<lambda>n. ''~1.0.0''),
      sortPackageJson = (\<lambda>p. p)\<rparr>"

definition agg_disk :: state where
  "agg_disk =
     \<lparr>manifests =
        [''/repo'' \<mapsto> \<lparr>content = \<lparr>name = ''root'', version = ''0.1.0'', dependencies = [],
            devDependencies = []\<rparr>, formatted = True\<rparr>,
         ''/repo/packages/a'' \<mapsto> \<lparr>content = \<lparr>name = ''a'', version = ''1.0.0'',
            dependencies = [], devDependencies = []\<rparr>, formatted = True\<rparr>,
         ''/repo/packages/all-packages'' \<mapsto> \<lparr>content = \<lparr>name = ''@jupyterlab/all-packages'',
            version = ''0.1.0'', dependencies = [], devDependencies = []\<rparr>, formatted = True\<rparr>,
         ''/repo/packages/b'' \<mapsto> \<lparr>content = \<lparr>name = ''b'', version = ''2.0.0'',
            dependencies = [(''a'', ''~1.0.0'')], devDependencies = []\<rparr>, formatted = True\<rparr>],
      files =
        [''/repo/packages/all-packages/src/index.ts'' \<mapsto>
           ''// Copyright\<newline>// License\<newline>\<newline>import \"a\";\<newline>\<newline>import \"b\";\<newline>'',
         ''/repo/packages/b/src/index.ts'' \<mapsto> ''import \"a\";''],
      cache = Map.empty, pkgPaths = [], pkgNames = Map.empty, seenDeps = Map.empty\<rparr>"

definition agg_loaded :: state where
  "agg_loaded = fold loadPackage (lernaPackages agg_env) agg_disk"

definition blank_env :: env where
  "blank_env =
     ex_env\<lparr>createSourceFile := (\<lambda>text. Node OtherKind
         [Node (ImportDeclaration ''lodash/fp'') [], Node (ImportDeclaration ''lodash/map'') []]),
       getDependency := (\<lambda>n. [])\<rparr>"




text \<open>
  A workspace of two packages without source files: the directory \<open>packages/a\<close> holds the
  package \<open>zeta\<close>, the directory \<open>packages/b\<close> the package \<open>alpha\<close>. Both manifests are
  not in the format that the script writes.
\<close>

definition order_env :: env where
  "order_env =
     \<lparr>basePath = ''/r'',
      lernaPackages = [''/r/packages/a'', ''/r/packages/b''],
      localPackages = [''/r/packages/a'', ''/r/packages/b''],
      sourceFiles = (\<lambda>d. []),
      tsconfigJson = True,
      createSourceFile = (\<lambda>text. Node OtherKind []),
      getDependency = (\<lambda>n. ''^1.0.0''),
      sortPackageJson = (\<lambda>p. p)\<rparr>"

definition order_disk :: state where
  "order_disk =
     \<lparr>manifests =
        [''/r'' \<mapsto> \<lparr>content = \<lparr>name = ''root'', version = ''0.1.0'', dependencies = [],
            devDependencies = []\<rparr>, formatted = True\<rparr>,
         ''/r/packages/a'' \<mapsto> \<lparr>content = \<lparr>name = ''zeta'', version = ''0.1.0'',
            dependencies = [], devDependencies = []\<rparr>, formatted = False\<rparr>,
         ''/r/packages/b'' \<mapsto> \<lparr>content = \<lparr>name = ''alpha'', version = ''0.1.0'',
            dependencies = [], devDependencies = []\<rparr>, formatted = False\<rparr>],
      files = Map.empty,
      cache = Map.empty, pkgPaths = [], pkgNames = Map.empty, seenDeps = Map.empty\<rparr>"

text \<open>
  The workspace with the all-packages package and one more pattern in \<open>lerna.json\<close>,
  which yields the package \<open>app\<close> in \<open>examples/app\<close>, outside of \<open>packages/*\<close>.
\<close>

definition wide_env :: env where
  "wide_env = agg_env\<lparr>lernaPackages := lernaPackages agg_env @ [''/repo/examples/app'']\<rparr>"

definition wide_disk :: state where
  "wide_disk =
     agg_disk\<lparr>manifests := (manifests agg_disk)(''/repo/examples/app'' \<mapsto>
       \<lparr>content = \<lparr>name = ''app'', version = ''3.0.0'', dependencies = [],
          devDependencies = []\<rparr>, formatted = True\<rparr>)\<rparr>"

definition wide_loaded :: state where
  "wide_loaded = fold loadPackage (lernaPackages wide_env) wide_disk"

text \<open>
  The workspace with the all-packages package, where the index has a header of one line
  only: its second line is the import of \<open>a\<close>.
\<close>

definition short_loaded :: state where
  "short_loaded =
     agg_loaded\<lparr>files := (files agg_loaded)(''/repo/packages/all-packages/src/index.ts'' \<mapsto>
       ''// Copyright\<newline>import \"a\";\<newline>\<newline>import \"b\";\<newline>'')\<rparr>"

section \<open>Properties of the functions\<close>

lemma split_not_Nil: "split c s \<noteq> []"
  by (induction s) (auto split: list.splits)

lemma split_Cons_sep: "split c (c # s) = [] # split c s"
  by simp

lemma split_free: "c \<notin> set s \<Longrightarrow> split c s = [s]"
  by (induction s) auto


lemma split_first: "c \<notin> set p \<Longrightarrow> split c (p @ c # rest) = p # split c rest"
  by (induction p) (auto split: list.splits)

lemma packageName_scoped:
  "CHR ''/'' \<notin> set scope \<Longrightarrow> CHR ''/'' \<notin> set nm \<Longrightarrow>
   packageName (''@'' @ scope @ ''/'' @ nm @ ''/'' @ rest) = ''@'' @ scope @ ''/'' @ nm"
proof -
  assume a: "CHR ''/'' \<notin> set scope" and b: "CHR ''/'' \<notin> set nm"
  have "CHR ''/'' \<notin> set (''@'' @ scope)" using a by simp
  then have "split (CHR ''/'') ((''@'' @ scope) @ CHR ''/'' # (nm @ CHR ''/'' # rest))
      = (''@'' @ scope) # split (CHR ''/'') (nm @ CHR ''/'' # rest)"
    by (rule split_first)
  also have "split (CHR ''/'') (nm @ CHR ''/'' # rest) = nm # split (CHR ''/'') rest"
    using b by (rule split_first)
  finally show ?thesis by (simp add: packageName_def)
qed

lemma packageName_plain:
  "CHR ''/'' \<notin> set nm \<Longrightarrow> take 1 nm \<noteq> ''@'' \<Longrightarrow> packageName (nm @ ''/'' @ rest) = nm"
proof -
  assume b: "CHR ''/'' \<notin> set nm" and c: "take 1 nm \<noteq> ''@''"
  have s: "split (CHR ''/'') (nm @ CHR ''/'' # rest) = nm # split (CHR ''/'') rest"
    using b by (rule split_first)
  have "take 1 (nm @ CHR ''/'' # rest) \<noteq> ''@''"
    using c by (cases nm) auto
  then show ?thesis using s by (simp add: packageName_def)
qed

lemma packageName_relative:
  "packageName (''./'' @ rest) = ''.''" "packageName (''../'' @ rest) = ''..''"
  by (simp_all add: packageName_def split: list.splits)

subsection \<open>Objects\<close>

lemma js_set_keys:
  "map fst (js_set obj k v) = (if k \<in> fst ` set obj then map fst obj else map fst obj @ [k])"
  by (induction obj) (force simp: image_iff)+

lemma js_set_keys_set: "fst ` set (js_set obj k v) = insert k (fst ` set obj)"
proof -
  have "set (map fst (js_set obj k v)) = insert k (fst ` set obj)"
    unfolding js_set_keys by auto
  then show ?thesis by simp
qed

lemma js_get_js_set: "js_get (js_set obj k v) k' = (if k' = k then Some v else js_get obj k')"
  by (induction obj) (auto simp: js_get_def)

lemma set_js_set: "set (js_set obj k v) \<subseteq> insert (k, v) (set obj)"
  by (induction obj) (auto split: if_splits)

lemma js_get_None: "js_get obj k = None \<longleftrightarrow> k \<notin> fst ` set obj"
  by (simp add: js_get_def map_of_eq_None_iff)

lemma js_get_Some_mem: "js_get obj k = Some v \<Longrightarrow> (k, v) \<in> set obj"
  by (simp add: js_get_def map_of_SomeD)

lemma js_delete_keys: "map fst (js_delete obj k) = filter (\<lambda>k'. k' \<noteq> k) (map fst obj)"
  by (induction obj) (auto simp: js_delete_def)

lemma js_get_js_delete: "js_get (js_delete obj k) k' = (if k' = k then None else js_get obj k')"
  by (induction obj) (auto simp: js_delete_def js_get_def)

lemma set_js_entries: "set (js_entries obj) = set obj"
  by (auto simp: js_entries_def)

lemma set_js_keys: "set (js_keys obj) = fst ` set obj"
  by (simp add: js_keys_def set_js_entries)

lemma map_insort_key:
  "map g (insort_key (\<lambda>x. f (g x)) x xs) = insort_key f (g x) (map g xs)"
  by (induction xs) auto

lemma map_sort_key: "map g (sort_key (\<lambda>x. f (g x)) xs) = sort_key f (map g xs)"
  by (induction xs) (auto simp: map_insort_key)

lemma js_keys_eq:
  "js_keys obj =
     sort_key index_key (filter is_array_index (map fst obj)) @
     filter (\<lambda>k. \<not> is_array_index k) (map fst obj)"
  by (simp add: js_keys_def js_entries_def map_sort_key filter_map comp_def)

lemma distinct_js_keys: "distinct (map fst obj) \<Longrightarrow> distinct (js_keys obj)"
  by (auto simp: js_keys_eq distinct_filter)

subsection \<open>Results\<close>

lemma bindE_Inr: "bindE m f = Inr y \<longleftrightarrow> (\<exists>x. m = Inr x \<and> f x = Inr y)"
  by (cases m) (auto simp: bindE_def)

lemma foldE_append: "foldE f (xs @ ys) s = bindE (foldE f xs s) (foldE f ys)"
  by (induction xs arbitrary: s) (auto simp: bindE_def split: sum.splits)

lemma foldE_invariant:
  assumes "foldE f xs s = Inr s'" and "P s"
    and "\<And>x a b. x \<in> set xs \<Longrightarrow> P a \<Longrightarrow> f x a = Inr b \<Longrightarrow> P b"
  shows "P s'"
  using assms
proof (induction xs arbitrary: s)
  case Nil
  then show ?case by simp
next
  case (Cons x xs)
  from Cons.prems(1) obtain a where a: "f x s = Inr a" and r: "foldE f xs a = Inr s'"
    by (auto simp: bindE_Inr)
  have "P a" using Cons.prems(2,3) a by auto
  then show ?case using Cons.IH [OF r] Cons.prems(3) by auto
qed

lemma fold_invariant:
  assumes "P s" and "\<And>x a. x \<in> set xs \<Longrightarrow> P a \<Longrightarrow> P (f x a)"
  shows "P (fold f xs s)"
  using assms by (induction xs arbitrary: s) auto

subsection \<open>The cached lookup\<close>

lemma resolve_seen: "snd (resolve e nm seen) nm = Some (fst (resolve e nm seen))"
  by (simp add: resolve_def split: option.splits)

lemma resolve_other: "seen k = Some v \<Longrightarrow> snd (resolve e nm seen) k = Some v"
  by (auto simp: resolve_def split: option.splits)

lemma resolve_cases: "snd (resolve e nm seen) k = Some v \<Longrightarrow> seen k = Some v \<or> (k = nm \<and> v = getDependency e nm)"
  by (auto simp: resolve_def split: option.splits if_splits)

lemma canonical_resolve: "canonical e (snd (resolve e nm seen)) k = canonical e seen k"
  by (auto simp: canonical_def resolve_def split: option.splits)

lemma canonical_seen: "seen k = Some v \<Longrightarrow> canonical e seen k = v"
  by (simp add: canonical_def resolve_def)

subsection \<open>Lines 47 to 61\<close>

lemma consistent_fold_props:
  assumes "set ks \<subseteq> fst ` set obj"
  shows "map fst (snd (fold (consistent e) ks (seen, obj))) = map fst obj
    \<and> seen \<subseteq>\<^sub>m fst (fold (consistent e) ks (seen, obj))
    \<and> (\<forall>k\<in>set ks. js_get (snd (fold (consistent e) ks (seen, obj))) k =
           fst (fold (consistent e) ks (seen, obj)) k
         \<and> fst (fold (consistent e) ks (seen, obj)) k \<noteq> None)
    \<and> (\<forall>k. k \<notin> set ks \<longrightarrow> js_get (snd (fold (consistent e) ks (seen, obj))) k = js_get obj k)
    \<and> (\<forall>k v. fst (fold (consistent e) ks (seen, obj)) k = Some v \<longrightarrow>
           seen k = Some v \<or> v = getDependency e k)"
  using assms
proof (induction ks rule: rev_induct)
  case Nil
  then show ?case by simp
next
  case (snoc x xs)
  obtain s o' where r: "fold (consistent e) xs (seen, obj) = (s, o')"
    by (cases "fold (consistent e) xs (seen, obj)")
  from snoc have ih: "map fst o' = map fst obj" "seen \<subseteq>\<^sub>m s"
    "\<forall>k\<in>set xs. js_get o' k = s k \<and> s k \<noteq> None"
    "\<forall>k. k \<notin> set xs \<longrightarrow> js_get o' k = js_get obj k"
    "\<forall>k v. s k = Some v \<longrightarrow> seen k = Some v \<or> v = getDependency e k"
    and x: "x \<in> fst ` set obj"
    by (simp_all add: r)
  have x': "x \<in> fst ` set o'"
    using x ih(1) by (metis list.set_map)
  have step: "fold (consistent e) (xs @ [x]) (seen, obj) =
      (snd (resolve e x s), js_set o' x (fst (resolve e x s)))"
    by (simp add: r consistent_def)
  have mono: "s \<subseteq>\<^sub>m snd (resolve e x s)"
    by (auto simp: map_le_def dom_def resolve_other)
  show ?case
    unfolding step fst_conv snd_conv
  proof (intro conjI ballI allI impI)
    show "map fst (js_set o' x (fst (resolve e x s))) = map fst obj"
      using x' ih(1) by (simp add: js_set_keys)
    show "seen \<subseteq>\<^sub>m snd (resolve e x s)"
      using ih(2) mono by (rule map_le_trans)
    show "js_get (js_set o' x (fst (resolve e x s))) k = snd (resolve e x s) k"
      if "k \<in> set (xs @ [x])" for k
    proof (cases "k = x")
      case True
      then show ?thesis by (simp add: js_get_js_set resolve_seen)
    next
      case False
      with that have "k \<in> set xs" by simp
      with ih(3) obtain v where "js_get o' k = Some v" "s k = Some v" by auto
      then show ?thesis using False by (simp add: js_get_js_set resolve_other)
    qed
    show "snd (resolve e x s) k \<noteq> None" if "k \<in> set (xs @ [x])" for k
    proof (cases "k = x")
      case True
      then show ?thesis by (simp add: resolve_seen)
    next
      case False
      with that have "k \<in> set xs" by simp
      with ih(3) obtain v where "s k = Some v" by auto
      then show ?thesis by (simp add: resolve_other)
    qed
    show "js_get (js_set o' x (fst (resolve e x s))) k = js_get obj k"
      if "k \<notin> set (xs @ [x])" for k
      using that ih(4) by (simp add: js_get_js_set)
    show "seen k = Some v \<or> v = getDependency e k"
      if "snd (resolve e x s) k = Some v" for k v
      using resolve_cases [OF that] ih(5) by auto
  qed
qed

lemma map_le_Some: "m \<subseteq>\<^sub>m m' \<Longrightarrow> m k = Some v \<Longrightarrow> m' k = Some v"
  by (metis domI map_le_def)

subsection \<open>Lines 96 to 111\<close>

lemma missingStep_props:
  "fold (missingStep e p) ns (ms, seen, deps) = (ms', seen', deps') \<Longrightarrow>
   (\<exists>xs. ms' = ms @ xs \<and>
      (\<forall>m\<in>set xs. \<exists>n\<in>set ns. m = ''Missing dependency: '' @ n \<and> n \<noteq> ''.'' \<and> n \<noteq> ''..'' \<and>
         \<not> listed MISSING p n))
   \<and> seen \<subseteq>\<^sub>m seen'
   \<and> (\<forall>k v. seen' k = Some v \<longrightarrow> seen k = Some v \<or> v = getDependency e k)
   \<and> map fst deps' = map fst deps @ drop (length deps) (map fst deps')
   \<and> (\<forall>k v. js_get deps' k = Some v \<longrightarrow> js_get deps k = Some v \<or> seen' k = Some v)
   \<and> (\<forall>k. \<not> js_not (js_get deps k) \<longrightarrow> js_get deps' k = js_get deps k)
   \<and> (\<forall>k. k \<notin> set ns \<longrightarrow> js_get deps' k = js_get deps k)"
proof (induction ns arbitrary: ms seen deps)
  case Nil
  then show ?case by simp
next
  case (Cons n ns)
  obtain ms1 seen1 deps1 where s: "missingStep e p n (ms, seen, deps) = (ms1, seen1, deps1)"
    by (cases "missingStep e p n (ms, seen, deps)")
  with Cons.prems have r: "fold (missingStep e p) ns (ms1, seen1, deps1) = (ms', seen', deps')"
    by simp
  note ih = Cons.IH [OF r]
  have mono1: "seen \<subseteq>\<^sub>m snd (resolve e n seen)"
    by (auto simp: map_le_def dom_def resolve_other)
  have s1: "(\<exists>xs. ms1 = ms @ xs \<and>
      (\<forall>m\<in>set xs. m = ''Missing dependency: '' @ n \<and> n \<noteq> ''.'' \<and> n \<noteq> ''..'' \<and>
         \<not> listed MISSING p n))"
    "seen \<subseteq>\<^sub>m seen1"
    "\<forall>k v. seen1 k = Some v \<longrightarrow> seen k = Some v \<or> v = getDependency e k"
    "map fst deps1 = map fst deps @ drop (length deps) (map fst deps1)"
    "\<forall>k v. js_get deps1 k = Some v \<longrightarrow> js_get deps k = Some v \<or> seen1 k = Some v"
    "\<forall>k. \<not> js_not (js_get deps k) \<longrightarrow> js_get deps1 k = js_get deps k"
    "\<forall>k. k \<noteq> n \<longrightarrow> js_get deps1 k = js_get deps k"
    using s mono1
    by (auto simp: missingStep_def js_set_keys js_get_js_set resolve_seen
        dest: resolve_cases split: if_splits)
  from s1(1) ih obtain xs ys where xs: "ms1 = ms @ xs" "ms' = ms1 @ ys"
    and xsP: "\<forall>m\<in>set xs. m = ''Missing dependency: '' @ n \<and> n \<noteq> ''.'' \<and> n \<noteq> ''..'' \<and>
         \<not> listed MISSING p n"
    and ysP: "\<forall>m\<in>set ys. \<exists>n\<in>set ns. m = ''Missing dependency: '' @ n \<and> n \<noteq> ''.'' \<and> n \<noteq> ''..'' \<and>
         \<not> listed MISSING p n"
    by blast
  have mono: "seen1 \<subseteq>\<^sub>m seen'" using ih by blast
  show ?case
  proof (intro conjI allI impI)
    show "\<exists>zs. ms' = ms @ zs \<and>
      (\<forall>m\<in>set zs. \<exists>n\<in>set (n # ns). m = ''Missing dependency: '' @ n \<and> n \<noteq> ''.'' \<and> n \<noteq> ''..'' \<and>
         \<not> listed MISSING p n)"
      using xs xsP ysP by (intro exI [of _ "xs @ ys"]) auto
    show "seen \<subseteq>\<^sub>m seen'"
      using s1(2) mono by (rule map_le_trans)
    show "seen k = Some v \<or> v = getDependency e k" if "seen' k = Some v" for k v
      using that ih s1(3) by blast
    have a: "map fst deps' = map fst deps1 @ drop (length deps1) (map fst deps')"
      using ih by blast
    have "length deps \<le> length deps1"
      using s1(4) by (metis length_append length_map le_add1)
    then show "map fst deps' = map fst deps @ drop (length deps) (map fst deps')"
      by (metis a s1(4) append_eq_conv_conj append_take_drop_id length_map take_append
          take_all_iff take_drop append.assoc)
    show "js_get deps k = Some v \<or> seen' k = Some v" if "js_get deps' k = Some v" for k v
    proof -
      from that ih have "js_get deps1 k = Some v \<or> seen' k = Some v" by blast
      then show ?thesis using s1(5) mono by (auto dest: map_le_Some)
    qed
    show "js_get deps' k = js_get deps k" if "\<not> js_not (js_get deps k)" for k
    proof -
      from that s1(6) have "js_get deps1 k = js_get deps k" by simp
      moreover with that have "\<not> js_not (js_get deps1 k)" by simp
      ultimately show ?thesis using ih by metis
    qed
    show "js_get deps' k = js_get deps k" if "k \<notin> set (n # ns)" for k
      using that s1(7) ih by simp
  qed
qed

subsection \<open>Lines 113 to 122\<close>

lemma unused_fold:
  "fold (unusedStep p names) ks (ms, deps) =
     (ms @ map (\<lambda>k. ''Unused dependency: '' @ k) (filter (unusedIn p names) ks),
      filter (\<lambda>kv. \<not> (fst kv \<in> set ks \<and> unusedIn p names (fst kv))) deps)"
proof (induction ks arbitrary: ms deps)
  case Nil
  then show ?case by simp
next
  case (Cons k ks)
  have "filter (\<lambda>kv. \<not> (fst kv \<in> set ks \<and> unusedIn p names (fst kv))) (js_delete deps k) =
      filter (\<lambda>kv. \<not> (fst kv \<in> set (k # ks) \<and> unusedIn p names (fst kv))) deps"
    if "unusedIn p names k"
    using that by (induction deps) (auto simp: js_delete_def)
  moreover have "filter (\<lambda>kv. \<not> (fst kv \<in> set ks \<and> unusedIn p names (fst kv))) deps =
      filter (\<lambda>kv. \<not> (fst kv \<in> set (k # ks) \<and> unusedIn p names (fst kv))) deps"
    if "\<not> unusedIn p names k"
    using that by (induction deps) auto
  ultimately show ?case
    using Cons.IH by (auto simp: unusedStep_def unusedIn_def)
qed

lemma js_get_filter:
  "js_get (filter (\<lambda>kv. P (fst kv)) obj) k = (if P k then js_get obj k else None)"
  by (induction obj) (auto simp: js_get_def)

subsection \<open>Writing a manifest\<close>

lemma ensurePackageData_cases:
  assumes "ensurePackageData e data dir st = Inr (c, st')"
  shows "(\<not> c \<and> st' = st \<and> manifests st dir = Some \<lparr>content = sortPackageJson e data, formatted = True\<rparr>) \<or>
     (c \<and> st' = st\<lparr>manifests := (manifests st)(dir \<mapsto> \<lparr>content = sortPackageJson e data, formatted = True\<rparr>)\<rparr>
        \<and> manifests st dir \<noteq> Some \<lparr>content = sortPackageJson e data, formatted = True\<rparr>)"
  using assms by (auto simp: ensurePackageData_def Let_def split: option.splits if_splits)

lemma ensurePackageData_frame:
  assumes "ensurePackageData e data dir st = Inr (c, st')"
  shows "cache st' = cache st" "files st' = files st" "seenDeps st' = seenDeps st"
    "pkgPaths st' = pkgPaths st" "pkgNames st' = pkgNames st"
    "\<not> c \<Longrightarrow> st' = st"
  using ensurePackageData_cases [OF assms] by auto

lemma changed_props:
  "changed ms (c, st) = (ms', st') \<Longrightarrow>
     st' = st \<and> ms' = (if c then ms @ [''Package data changed''] else ms)"
  by (auto simp: changed_def)

subsection \<open>The all-packages package\<close>

lemma require_cases:
  assumes "require dir st = Inr (p, st1)"
  shows "cache st1 dir = Some p \<and>
    ((cache st dir = Some p \<and> st1 = st) \<or>
     (cache st dir = None \<and> (\<exists>f. manifests st dir = Some f \<and> p = content f) \<and>
      st1 = st\<lparr>cache := (cache st)(dir \<mapsto> p)\<rparr>))"
  using assms by (auto simp: require_def split: option.splits)

lemma ensureDependency_props:
  assumes "ensureDependency st nm deps = Inr (valid, deps')"
  shows "valid \<longrightarrow> deps' = deps"
    and "\<not> js_not (js_get deps' nm)"
    and "js_not (js_get deps nm) \<longrightarrow> (\<exists>q. pkgData st nm = Some q \<and> js_get deps' nm = Some (''^'' @ version q))"
    and "\<forall>k. k \<noteq> nm \<longrightarrow> js_get deps' k = js_get deps k"
    and "\<not> js_not (js_get deps nm) \<longrightarrow> deps' = deps"
  using assms
  by (auto simp: ensureDependency_def js_get_js_set js_not_def
      split: if_splits option.splits)

lemma ensureDependency_keys:
  assumes "ensureDependency st nm deps = Inr (valid, deps')"
  shows "fst ` set deps \<subseteq> fst ` set deps'"
proof -
  from assms have "deps' = deps \<or> (\<exists>v. deps' = js_set deps nm v)"
    by (auto simp: ensureDependency_def split: if_splits option.splits)
  then show ?thesis
    by (elim disjE exE) (simp_all add: js_set_keys_set subset_insertI)
qed

lemma allPackagesStep_props:
  assumes "allPackagesStep e st index q (deps, lines, ms) = Inr (deps', lines', ms')"
  shows "lines' = lines @ map (\<lambda>q. importLine (nameOf st q)) (filter (\<lambda>q. q \<noteq> allPackagesPath e) [q])"
    and "\<exists>xs. ms' = ms @ xs \<and> (\<forall>m\<in>set xs. \<exists>n. m = ''Updated: '' @ n)"
    and "ms' = ms \<longrightarrow> deps' = deps"
    and "\<forall>k v. js_get deps' k = Some v \<longrightarrow> js_get deps k = Some v \<or> caret st k v"
    and "\<forall>k. \<not> js_not (js_get deps k) \<longrightarrow> js_get deps' k = js_get deps k"
    and "fst ` set deps \<subseteq> fst ` set deps'"
    and "q \<noteq> allPackagesPath e \<longrightarrow> \<not> js_not (js_get deps' (nameOf st q)) \<and>
      (js_not (js_get deps (nameOf st q)) \<longrightarrow>
        (\<exists>d. pkgData st (nameOf st q) = Some d \<and>
           js_get deps' (nameOf st q) = Some (''^'' @ version d)))"
proof -
  show "lines' = lines @ map (\<lambda>q. importLine (nameOf st q)) (filter (\<lambda>q. q \<noteq> allPackagesPath e) [q])"
    using assms by (auto simp: allPackagesStep_def bindE_Inr split: if_splits)
  show "\<exists>xs. ms' = ms @ xs \<and> (\<forall>m\<in>set xs. \<exists>n. m = ''Updated: '' @ n)"
    using assms by (auto simp: allPackagesStep_def bindE_Inr split: if_splits)
  show "ms' = ms \<longrightarrow> deps' = deps"
    using assms ensureDependency_props(1)
    by (auto simp: allPackagesStep_def bindE_Inr split: if_splits)
  show "\<forall>k v. js_get deps' k = Some v \<longrightarrow> js_get deps k = Some v \<or> caret st k v"
  proof (cases "q = allPackagesPath e")
    case True
    then show ?thesis using assms by (simp add: allPackagesStep_def)
  next
    case False
    then obtain valid where d: "ensureDependency st (nameOf st q) deps = Inr (valid, deps')"
      using assms by (auto simp: allPackagesStep_def bindE_Inr)
    show ?thesis
    proof (intro allI impI)
      fix k v assume kv: "js_get deps' k = Some v"
      show "js_get deps k = Some v \<or> caret st k v"
      proof (cases "k = nameOf st q \<and> js_not (js_get deps k)")
        case True
        then show ?thesis
          using ensureDependency_props(3) [OF d] kv by (auto simp: caret_def)
      next
        case False
        then show ?thesis
          using ensureDependency_props(4,5) [OF d] kv by auto
      qed
    qed
  qed
  show "\<forall>k. \<not> js_not (js_get deps k) \<longrightarrow> js_get deps' k = js_get deps k"
  proof (cases "q = allPackagesPath e")
    case True
    then show ?thesis using assms by (simp add: allPackagesStep_def)
  next
    case False
    then obtain valid where d: "ensureDependency st (nameOf st q) deps = Inr (valid, deps')"
      using assms by (auto simp: allPackagesStep_def bindE_Inr)
    show ?thesis
      using ensureDependency_props(4,5) [OF d] by metis
  qed
  show "fst ` set deps \<subseteq> fst ` set deps'"
  proof (cases "q = allPackagesPath e")
    case True
    then show ?thesis using assms by (simp add: allPackagesStep_def)
  next
    case False
    then obtain valid where d: "ensureDependency st (nameOf st q) deps = Inr (valid, deps')"
      using assms by (auto simp: allPackagesStep_def bindE_Inr)
    then show ?thesis by (rule ensureDependency_keys)
  qed
  show "q \<noteq> allPackagesPath e \<longrightarrow> \<not> js_not (js_get deps' (nameOf st q)) \<and>
      (js_not (js_get deps (nameOf st q)) \<longrightarrow>
        (\<exists>d. pkgData st (nameOf st q) = Some d \<and>
           js_get deps' (nameOf st q) = Some (''^'' @ version d)))"
    using assms ensureDependency_props(2,3)
    by (auto simp: allPackagesStep_def bindE_Inr split: if_splits)
qed

lemma allPackages_fold:
  assumes "foldE (allPackagesStep e st index) qs (deps, lines, ms) = Inr (deps', lines', ms')"
  shows "lines' = lines @ map (\<lambda>q. importLine (nameOf st q)) (filter (\<lambda>q. q \<noteq> allPackagesPath e) qs)
    \<and> (\<exists>xs. ms' = ms @ xs \<and> (\<forall>m\<in>set xs. \<exists>n. m = ''Updated: '' @ n))
    \<and> (ms' = ms \<longrightarrow> deps' = deps)
    \<and> (\<forall>k v. js_get deps' k = Some v \<longrightarrow> js_get deps k = Some v \<or> caret st k v)
    \<and> (\<forall>k. \<not> js_not (js_get deps k) \<longrightarrow> js_get deps' k = js_get deps k)
    \<and> fst ` set deps \<subseteq> fst ` set deps'
    \<and> (\<forall>q\<in>set qs. q \<noteq> allPackagesPath e \<longrightarrow> \<not> js_not (js_get deps' (nameOf st q)) \<and>
      (js_not (js_get deps (nameOf st q)) \<longrightarrow>
        (\<exists>d. pkgData st (nameOf st q) = Some d \<and>
           js_get deps' (nameOf st q) = Some (''^'' @ version d))))"
  using assms
proof (induction qs arbitrary: deps lines ms)
  case Nil
  then show ?case by simp
next
  case (Cons q qs)
  from Cons.prems obtain deps1 lines1 ms1
    where s: "allPackagesStep e st index q (deps, lines, ms) = Inr (deps1, lines1, ms1)"
      and r: "foldE (allPackagesStep e st index) qs (deps1, lines1, ms1) = Inr (deps', lines', ms')"
    by (auto simp: bindE_Inr)
  note s1 = allPackagesStep_props [OF s]
  note ih = Cons.IH [OF r]
  note ih1 = ih [THEN conjunct1]
  note ih2 = ih [THEN conjunct2, THEN conjunct1]
  note ih3 = ih [THEN conjunct2, THEN conjunct2, THEN conjunct1]
  note ih4 = ih [THEN conjunct2, THEN conjunct2, THEN conjunct2, THEN conjunct1]
  note ih5 = ih [THEN conjunct2, THEN conjunct2, THEN conjunct2, THEN conjunct2, THEN conjunct1]
  note ih6 = ih [THEN conjunct2, THEN conjunct2, THEN conjunct2, THEN conjunct2, THEN conjunct2,
    THEN conjunct1]
  note ih7 = ih [THEN conjunct2, THEN conjunct2, THEN conjunct2, THEN conjunct2, THEN conjunct2,
    THEN conjunct2]
  from s1(2) obtain xs where xs1: "ms1 = ms @ xs"
    and xsP: "\<forall>m\<in>set xs. \<exists>n. m = ''Updated: '' @ n"
    by (elim exE conjE)
  from ih2 obtain ys where xs2: "ms' = ms1 @ ys"
    and ysP: "\<forall>m\<in>set ys. \<exists>n. m = ''Updated: '' @ n"
    by (elim exE conjE)
  note xs = xs1 xs2
  have keep1: "\<And>k. \<not> js_not (js_get deps k) \<Longrightarrow> js_get deps1 k = js_get deps k"
    using s1(5) by simp
  have keep: "\<And>k. \<not> js_not (js_get deps1 k) \<Longrightarrow> js_get deps' k = js_get deps1 k"
    using ih5 by simp
  show ?case
  proof (intro conjI allI impI ballI)
    show "lines' = lines @ map (\<lambda>q. importLine (nameOf st q))
        (filter (\<lambda>q. q \<noteq> allPackagesPath e) (q # qs))"
      using s1(1) ih1 by simp
    show "\<exists>zs. ms' = ms @ zs \<and> (\<forall>m\<in>set zs. \<exists>n. m = ''Updated: '' @ n)"
      using xs xsP ysP by (intro exI [of _ "xs @ ys"]) auto
    show "deps' = deps" if "ms' = ms"
    proof -
      from that xs have "xs = []" "ys = []" by auto
      then have "ms1 = ms" "ms' = ms1" using xs by auto
      then show ?thesis using s1(3) ih3 by simp
    qed
    show "js_get deps k = Some v \<or> caret st k v" if "js_get deps' k = Some v" for k v
    proof -
      from that ih4 have "js_get deps1 k = Some v \<or> caret st k v" by simp
      then show ?thesis using s1(4) by auto
    qed
    show "js_get deps' k = js_get deps k" if "\<not> js_not (js_get deps k)" for k
      using that keep1 [of k] keep [of k] by simp
    show "fst ` set deps \<subseteq> fst ` set deps'"
      using s1(6) ih6 by (rule subset_trans)
    show "\<not> js_not (js_get deps' (nameOf st q'))"
      if "q' \<in> set (q # qs)" "q' \<noteq> allPackagesPath e" for q'
    proof (cases "q' = q")
      case True
      then have "\<not> js_not (js_get deps1 (nameOf st q'))" using s1(7) that by simp
      then show ?thesis using keep by simp
    next
      case False
      then show ?thesis using that ih7 by simp
    qed
    show "\<exists>d. pkgData st (nameOf st q') = Some d \<and>
           js_get deps' (nameOf st q') = Some (''^'' @ version d)"
      if "q' \<in> set (q # qs)" "q' \<noteq> allPackagesPath e" "js_not (js_get deps (nameOf st q'))" for q'
    proof (cases "js_not (js_get deps1 (nameOf st q'))")
      case True
      have "q' \<noteq> q" using True s1(7) that(2) by auto
      then have "q' \<in> set qs" using that by simp
      then show ?thesis using ih7 True that(2) by simp
    next
      case False
      have changed: "js_get deps1 (nameOf st q') \<noteq> js_get deps (nameOf st q')"
        using False that(3) by auto
      have "q \<noteq> allPackagesPath e"
        using changed s by (auto simp: allPackagesStep_def split: if_splits)
      then obtain valid where d: "ensureDependency st (nameOf st q) deps = Inr (valid, deps1)"
        using s by (auto simp: allPackagesStep_def bindE_Inr)
      have nm: "nameOf st q' = nameOf st q"
        using changed ensureDependency_props(4) [OF d] by metis
      with that(3) obtain d' where "pkgData st (nameOf st q') = Some d'"
        "js_get deps1 (nameOf st q') = Some (''^'' @ version d')"
        using ensureDependency_props(3) [OF d] by auto
      then show ?thesis using keep [OF False] by auto
    qed
  qed
qed

lemma writeIndex_props:
  "writeIndex e index lines (ms, st) = (ms', st') \<Longrightarrow>
     cache st' = cache st \<and> manifests st' = manifests st \<and> seenDeps st' = seenDeps st \<and>
     pkgPaths st' = pkgPaths st \<and> pkgNames st' = pkgNames st \<and>
     (join ''\<newline>'' lines = index \<longrightarrow> ms' = ms \<and> st' = st) \<and>
     (join ''\<newline>'' lines \<noteq> index \<longrightarrow> ms' = ms @ [''Index changed''] \<and>
        files st' = (files st)(indexPath e \<mapsto> join ''\<newline>'' lines))"
  by (auto simp: writeIndex_def split: if_splits)

lemma ensureAllPackages_cases:
  assumes "ensureAllPackages e st = Inr (ms, st')"
  obtains A st1 index deps lines ms0 c st2 where
    "require (allPackagesPath e) st = Inr (A, st1)"
    "files st1 (indexPath e) = Some index"
    "foldE (allPackagesStep e st1 index) (localPackages e)
       (dependencies A, take 3 (split (CHR ''\<newline>'') index), []) = Inr (deps, lines, ms0)"
    "ensurePackageData e (A\<lparr>dependencies := deps\<rparr>) (allPackagesPath e)
       (st1\<lparr>cache := (cache st1)(allPackagesPath e \<mapsto> A\<lparr>dependencies := deps\<rparr>)\<rparr>) = Inr (c, st2)"
    "writeIndex e index lines (changed ms0 (c, st2)) = (ms, st')"
proof -
  from assms obtain r1 where r1: "require (allPackagesPath e) st = Inr r1"
    and k1: "(case r1 of (allPackageData, st1) \<Rightarrow>
       if \<not> tsconfigJson e then Inl CannotFindModule
       else
         (case files st1 (indexPath e) of
            None \<Rightarrow> Inl ENOENT
          | Some index \<Rightarrow>
              bindE (foldE (allPackagesStep e st1 index) (localPackages e)
                       (dependencies allPackageData, take 3 (split (CHR ''\<newline>'') index), []))
                (\<lambda>(deps, lines, messages).
                   bindE (ensurePackageData e (allPackageData\<lparr>dependencies := deps\<rparr>)
                            (allPackagesPath e)
                            (st1\<lparr>cache := (cache st1)(allPackagesPath e \<mapsto>
                                   allPackageData\<lparr>dependencies := deps\<rparr>)\<rparr>))
                     (\<lambda>r. Inr (writeIndex e index lines (changed messages r)))))) = Inr (ms, st')"
    unfolding ensureAllPackages_def bindE_Inr by blast
  obtain A st1 where r1': "r1 = (A, st1)" by (cases r1)
  from k1 r1' obtain index where i: "files st1 (indexPath e) = Some index"
    and k2: "bindE (foldE (allPackagesStep e st1 index) (localPackages e)
                       (dependencies A, take 3 (split (CHR ''\<newline>'') index), []))
                (\<lambda>(deps, lines, messages).
                   bindE (ensurePackageData e (A\<lparr>dependencies := deps\<rparr>)
                            (allPackagesPath e)
                            (st1\<lparr>cache := (cache st1)(allPackagesPath e \<mapsto>
                                   A\<lparr>dependencies := deps\<rparr>)\<rparr>))
                     (\<lambda>r. Inr (writeIndex e index lines (changed messages r)))) = Inr (ms, st')"
    by (simp split: if_splits option.splits)
  from k2 obtain r2 where f: "foldE (allPackagesStep e st1 index) (localPackages e)
                       (dependencies A, take 3 (split (CHR ''\<newline>'') index), []) = Inr r2"
    and k3: "(case r2 of (deps, lines, messages) \<Rightarrow>
                   bindE (ensurePackageData e (A\<lparr>dependencies := deps\<rparr>)
                            (allPackagesPath e)
                            (st1\<lparr>cache := (cache st1)(allPackagesPath e \<mapsto>
                                   A\<lparr>dependencies := deps\<rparr>)\<rparr>))
                     (\<lambda>r. Inr (writeIndex e index lines (changed messages r)))) = Inr (ms, st')"
    unfolding bindE_Inr by blast
  obtain deps lines ms0 where r2': "r2 = (deps, lines, ms0)" by (cases r2)
  from k3 r2' obtain r3 where w: "ensurePackageData e (A\<lparr>dependencies := deps\<rparr>)
                            (allPackagesPath e)
                            (st1\<lparr>cache := (cache st1)(allPackagesPath e \<mapsto>
                                   A\<lparr>dependencies := deps\<rparr>)\<rparr>) = Inr r3"
    and k4: "writeIndex e index lines (changed ms0 r3) = (ms, st')"
    by (simp add: bindE_Inr) blast
  obtain c st2 where "r3 = (c, st2)" by (cases r3)
  then show ?thesis
    using that r1 r1' i f r2' w k4 by simp
qed

lemma unused_fold_keys:
  "fold (unusedStep p names) (js_keys deps) (ms, deps) =
     (ms @ map (\<lambda>k. ''Unused dependency: '' @ k) (filter (unusedIn p names) (js_keys deps)),
      pruned p names deps)"
proof -
  have "filter (\<lambda>kv. \<not> (fst kv \<in> set (js_keys deps) \<and> unusedIn p names (fst kv))) deps =
      filter (\<lambda>kv. \<not> unusedIn p names (fst kv)) deps"
    by (rule filter_cong) (auto simp: set_js_keys)
  then show ?thesis by (simp add: unused_fold pruned_def)
qed

lemma checkImports_cases:
  assumes "checkImports e p dname ms st = Inr (ms', st')"
  obtains (none) data c where
      "cache st dname = Some data" "sourceFiles e dname = []"
      "ensurePackageData e data dname st = Inr (c, st')"
      "ms' = (if c then ms @ [''Package data changed''] else ms)"
  | (some) data names ms1 seen1 deps1 c where
      "cache st dname = Some data" "sourceFiles e dname \<noteq> []"
      "importNames e st dname = Inr names"
      "fold (missingStep e p) names (ms, seenDeps st, dependencies data) = (ms1, seen1, deps1)"
      "ensurePackageData e (data\<lparr>dependencies := pruned p names deps1\<rparr>) dname
         (st\<lparr>seenDeps := seen1,
            cache := (cache st)(dname \<mapsto> data\<lparr>dependencies := pruned p names deps1\<rparr>)\<rparr>) = Inr (c, st')"
      "ms' = (let us = ms1 @ map (\<lambda>k. ''Unused dependency: '' @ k)
                 (filter (unusedIn p names) (js_keys deps1))
              in if c then us @ [''Package data changed''] else us)"
proof -
  from assms obtain data where d: "cache st dname = Some data"
    by (auto simp: checkImports_def split: option.splits)
  show ?thesis
  proof (cases "sourceFiles e dname = []")
    case True
    with assms d obtain r where r: "ensurePackageData e data dname st = Inr r"
      and k: "changed ms r = (ms', st')"
      by (auto simp: checkImports_def bindE_Inr)
    obtain c st2 where r': "r = (c, st2)" by (cases r)
    from k r' have "st2 = st'" "ms' = (if c then ms @ [''Package data changed''] else ms)"
      by (auto dest: changed_props)
    then show ?thesis using none d True r r' by simp
  next
    case False
    with assms d obtain names where n: "importNames e st dname = Inr names"
      and k: "(let m = fold (missingStep e p) names (ms, seenDeps st, dependencies data);
                  u = fold (unusedStep p names) (js_keys (snd (snd m))) (fst m, snd (snd m));
                  data' = data\<lparr>dependencies := snd u\<rparr>
              in bindE (ensurePackageData e data' dname
                          (st\<lparr>seenDeps := fst (snd m), cache := (cache st)(dname \<mapsto> data')\<rparr>))
                   (\<lambda>r. Inr (changed (fst u) r))) = Inr (ms', st')"
      by (auto simp: checkImports_def bindE_Inr)
    obtain ms1 seen1 deps1 where
      m: "fold (missingStep e p) names (ms, seenDeps st, dependencies data) = (ms1, seen1, deps1)"
      by (cases "fold (missingStep e p) names (ms, seenDeps st, dependencies data)")
    from k obtain r where
      r: "ensurePackageData e (data\<lparr>dependencies := pruned p names deps1\<rparr>) dname
         (st\<lparr>seenDeps := seen1,
            cache := (cache st)(dname \<mapsto> data\<lparr>dependencies := pruned p names deps1\<rparr>)\<rparr>) = Inr r"
      and k': "changed (ms1 @ map (\<lambda>k. ''Unused dependency: '' @ k)
                 (filter (unusedIn p names) (js_keys deps1))) r = (ms', st')"
      by (auto simp: Let_def m unused_fold_keys bindE_Inr)
    obtain c st2 where r': "r = (c, st2)" by (cases r)
    from k' r' have "st2 = st'" "ms' = (let us = ms1 @ map (\<lambda>k. ''Unused dependency: '' @ k)
                 (filter (unusedIn p names) (js_keys deps1))
              in if c then us @ [''Package data changed''] else us)"
      by (auto dest: changed_props simp: Let_def)
    then show ?thesis using some d False n m r r' by simp
  qed
qed

lemma ensurePackage_cases:
  assumes "ensurePackage e p st = Inr (ms, st')"
  obtains dname data ms0 st2 where
    "js_get (pkgPaths st) p = Some dname" "cache st dname = Some data"
    "(if p = ''@jupyterlab/all-packages''
      then ensureAllPackages e (verifyDependencies e dname data st)
      else Inr ([], verifyDependencies e dname data st)) = Inr (ms0, st2)"
    "checkImports e p dname ms0 st2 = Inr (ms, st')"
proof -
  from assms obtain dname where a: "js_get (pkgPaths st) p = Some dname"
    by (auto simp: ensurePackage_def split: option.splits)
  from assms a obtain data where b: "cache st dname = Some data"
    by (auto simp: ensurePackage_def split: option.splits)
  from assms a b have "bindE (if p = ''@jupyterlab/all-packages''
      then ensureAllPackages e (verifyDependencies e dname data st)
      else Inr ([], verifyDependencies e dname data st))
      (\<lambda>(messages, st2). checkImports e p dname messages st2) = Inr (ms, st')"
    by (simp add: ensurePackage_def)
  then obtain r where c: "(if p = ''@jupyterlab/all-packages''
      then ensureAllPackages e (verifyDependencies e dname data st)
      else Inr ([], verifyDependencies e dname data st)) = Inr r"
    and d: "(case r of (messages, st2) \<Rightarrow> checkImports e p dname messages st2) = Inr (ms, st')"
    unfolding bindE_Inr by (elim exE conjE)
  obtain ms0 st2 where "r = (ms0, st2)" by (cases r)
  then show ?thesis using that a b c d by simp
qed

lemma ensureAllPackages_messages:
  assumes "ensureAllPackages e st = Inr (ms, st')"
  shows "\<forall>m\<in>set ms. (\<exists>n. m = ''Updated: '' @ n) \<or> m = ''Package data changed'' \<or> m = ''Index changed''"
  using assms
proof (cases rule: ensureAllPackages_cases)
  case (1 A st1 index deps lines ms0 c st2)
  note f = 1(3) and w = 1(5)
  from allPackages_fold [OF f] have m0: "\<forall>m\<in>set ms0. \<exists>n. m = ''Updated: '' @ n"
    by auto
  obtain ms1 where c: "changed ms0 (c, st2) = (ms1, st2)"
    and ms1: "ms1 = (if c then ms0 @ [''Package data changed''] else ms0)"
    by (simp add: changed_def)
  from w c have "ms = ms1 \<or> ms = ms1 @ [''Index changed'']"
    using writeIndex_props [of e index lines ms1 st2 ms st'] by auto
  then show ?thesis using m0 ms1 by (auto split: if_splits)
qed

lemma ensurePackage_messages:
  assumes "ensurePackage e p st = Inr (ms, st')"
  shows "\<forall>m\<in>set ms. finding p m"
  using assms
proof (cases rule: ensurePackage_cases)
  case (1 dname data ms0 st2)
  note s = 1(3) and c = 1(4)
  have m0: "\<forall>m\<in>set ms0. finding p m"
  proof (cases "p = ''@jupyterlab/all-packages''")
    case True
    with s have "ensureAllPackages e (verifyDependencies e dname data st) = Inr (ms0, st2)"
      by simp
    from ensureAllPackages_messages [OF this] show ?thesis
      by (auto simp: finding_def)
  next
    case False
    with s show ?thesis by simp
  qed
  from c show ?thesis
  proof (cases rule: checkImports_cases)
    case (none data c)
    then show ?thesis using m0 by (auto simp: finding_def)
  next
    case (some data' names ms1 seen1 deps1 c)
    from missingStep_props [OF some(4)] obtain xs where xs: "ms1 = ms0 @ xs"
      and xsP: "\<forall>m\<in>set xs. \<exists>n\<in>set names. m = ''Missing dependency: '' @ n \<and> n \<noteq> ''.'' \<and>
        n \<noteq> ''..'' \<and> \<not> listed MISSING p n"
      by blast
    have "\<forall>m\<in>set ms1. finding p m"
    proof
      fix m assume "m \<in> set ms1"
      then consider "m \<in> set ms0" | "m \<in> set xs" using xs by auto
      then show "finding p m"
      proof cases
        case 1
        then show ?thesis using m0 by simp
      next
        case 2
        with xsP obtain n where "m = ''Missing dependency: '' @ n" "n \<noteq> ''.''" "n \<noteq> ''..''"
          "\<not> listed MISSING p n" by blast
        then show ?thesis unfolding finding_def by blast
      qed
    qed
    moreover have "\<forall>m\<in>set (map (\<lambda>k. ''Unused dependency: '' @ k)
                 (filter (unusedIn p names) (js_keys deps1))). finding p m"
      by (auto simp: finding_def unusedIn_def)
    moreover have "finding p ''Package data changed''"
      by (simp add: finding_def)
    ultimately show ?thesis using some(6) by (auto simp: Let_def split: if_splits)
  qed
qed


lemma alike_refl: "alike a a"
  by (simp add: alike_def)

lemma alike_trans: "alike a b \<Longrightarrow> alike b c \<Longrightarrow> alike a c"
  by (simp add: alike_def)

lemma settled_mono: "settled seen obj \<Longrightarrow> seen \<subseteq>\<^sub>m seen' \<Longrightarrow> settled seen' obj"
  unfolding settled_def by (meson map_le_Some)

lemma resolve_mono: "seen \<subseteq>\<^sub>m snd (resolve e n seen)"
  by (auto simp: map_le_def dom_def resolve_other)

lemma verifyDependencies_props:
  assumes "st1 = verifyDependencies e dname data st"
  shows "manifests st1 = manifests st" "files st1 = files st"
    "pkgPaths st1 = pkgPaths st" "pkgNames st1 = pkgNames st"
    "seenDeps st \<subseteq>\<^sub>m seenDeps st1"
    "\<forall>k v. seenDeps st1 k = Some v \<longrightarrow> seenDeps st k = Some v \<or> v = getDependency e k"
    "\<exists>data1. cache st1 = (cache st)(dname \<mapsto> data1) \<and> alike data data1 \<and>
       map fst (dependencies data1) = map fst (dependencies data) \<and>
       settled (seenDeps st1) (dependencies data1) \<and>
       settled (seenDeps st1) (devDependencies data1)"
proof -
  obtain s1 d1 where d: "fold (consistent e) (js_keys (dependencies data))
      (seenDeps st, dependencies data) = (s1, d1)"
    by (cases "fold (consistent e) (js_keys (dependencies data)) (seenDeps st, dependencies data)")
  obtain s2 d2 where v: "fold (consistent e) (js_keys (devDependencies data))
      (s1, devDependencies data) = (s2, d2)"
    by (cases "fold (consistent e) (js_keys (devDependencies data)) (s1, devDependencies data)")
  have st1: "st1 = st\<lparr>seenDeps := s2,
      cache := (cache st)(dname \<mapsto> data\<lparr>dependencies := d1, devDependencies := d2\<rparr>)\<rparr>"
    using assms d v by (simp add: verifyDependencies_def Let_def)
  have k1: "set (js_keys (dependencies data)) \<subseteq> fst ` set (dependencies data)"
    and k2: "set (js_keys (devDependencies data)) \<subseteq> fst ` set (devDependencies data)"
    by (simp_all add: set_js_keys)
  note p1 = consistent_fold_props [OF k1, of e "seenDeps st", unfolded d fst_conv snd_conv]
  note p2 = consistent_fold_props [OF k2, of e s1, unfolded v fst_conv snd_conv]
  have keys1: "map fst d1 = map fst (dependencies data)" using p1 by simp
  have keys2: "map fst d2 = map fst (devDependencies data)" using p2 by simp
  have m1: "seenDeps st \<subseteq>\<^sub>m s1" using p1 by simp
  have m2: "s1 \<subseteq>\<^sub>m s2" using p2 by simp
  have set1: "settled s1 d1"
    unfolding settled_def
  proof (intro allI impI)
    fix k v assume kv: "js_get d1 k = Some v"
    then have "k \<in> fst ` set d1" by (metis js_get_None option.distinct(1))
    then have "k \<in> set (js_keys (dependencies data))"
      using keys1 by (metis list.set_map set_js_keys)
    with p1 have "js_get d1 k = s1 k" by simp
    with kv show "s1 k = Some v" by simp
  qed
  have set2: "settled s2 d2"
    unfolding settled_def
  proof (intro allI impI)
    fix k v assume kv: "js_get d2 k = Some v"
    then have "k \<in> fst ` set d2" by (metis js_get_None option.distinct(1))
    then have "k \<in> set (js_keys (devDependencies data))"
      using keys2 by (metis list.set_map set_js_keys)
    with p2 have "js_get d2 k = s2 k" by simp
    with kv show "s2 k = Some v" by simp
  qed
  show "manifests st1 = manifests st" "files st1 = files st"
    "pkgPaths st1 = pkgPaths st" "pkgNames st1 = pkgNames st"
    by (simp_all add: st1)
  show "seenDeps st \<subseteq>\<^sub>m seenDeps st1"
    using m1 m2 by (simp add: st1) (rule map_le_trans)
  show "\<forall>k v. seenDeps st1 k = Some v \<longrightarrow> seenDeps st k = Some v \<or> v = getDependency e k"
  proof (intro allI impI)
    fix k v assume "seenDeps st1 k = Some v"
    then have "s2 k = Some v" by (simp add: st1)
    with p2 have "s1 k = Some v \<or> v = getDependency e k" by simp
    with p1 show "seenDeps st k = Some v \<or> v = getDependency e k" by auto
  qed
  show "\<exists>data1. cache st1 = (cache st)(dname \<mapsto> data1) \<and> alike data data1 \<and>
       map fst (dependencies data1) = map fst (dependencies data) \<and>
       settled (seenDeps st1) (dependencies data1) \<and>
       settled (seenDeps st1) (devDependencies data1)"
    using keys1 keys2 set2 settled_mono [OF set1 m2]
    by (intro exI [of _ "data\<lparr>dependencies := d1, devDependencies := d2\<rparr>"])
       (simp add: st1 alike_def)
qed

lemma caret_stable:
  assumes "caret st k v" "pkgPaths st' = pkgPaths st"
    and "\<And>q obj. cache st q = Some obj \<Longrightarrow> \<exists>obj'. cache st' q = Some obj' \<and> alike obj obj'"
  shows "caret st' k v"
proof -
  from assms(1) obtain q where q: "pkgData st k = Some q" "v = ''^'' @ version q"
    by (auto simp: caret_def)
  then obtain d where d: "js_get (pkgPaths st) k = Some d" "cache st d = Some q"
    by (auto simp: pkgData_def split: option.splits)
  from assms(3) [OF d(2)] obtain q' where "cache st' d = Some q'" "alike q q'" by blast
  then show ?thesis
    using d q assms(2) by (auto simp: caret_def pkgData_def alike_def)
qed

lemma ensurePackageData_other:
  assumes "ensurePackageData e data dir st = Inr (c, st')" "q \<noteq> dir"
  shows "manifests st' q = manifests st q"
  using assms by (auto simp: ensurePackageData_def Let_def split: option.splits if_splits)

lemma ensureAllPackages_all:
  assumes "ensureAllPackages e st = Inr (ms, st')"
  shows "(pkgPaths st' = pkgPaths st \<and> pkgNames st' = pkgNames st \<and> seenDeps st' = seenDeps st)
    \<and> (\<forall>q. q \<noteq> allPackagesPath e \<longrightarrow> cache st' q = cache st q \<and> manifests st' q = manifests st q)
    \<and> (\<forall>f. f \<noteq> indexPath e \<longrightarrow> files st' f = files st f)
    \<and> (ms = [] \<longrightarrow> manifests st' = manifests st \<and> files st' = files st)
    \<and> (\<exists>A deps. require (allPackagesPath e) st = Inr (A, st\<lparr>cache := (cache st)(allPackagesPath e \<mapsto> A)\<rparr>) \<and>
       cache st' (allPackagesPath e) = Some (A\<lparr>dependencies := deps\<rparr>) \<and>
       (ms = [] \<longrightarrow> deps = dependencies A) \<and>
       fst ` set (dependencies A) \<subseteq> fst ` set deps \<and>
       (\<forall>k. \<not> js_not (js_get (dependencies A) k) \<longrightarrow> js_get deps k = js_get (dependencies A) k) \<and>
       (\<forall>k v. js_get deps k = Some v \<longrightarrow> js_get (dependencies A) k = Some v \<or> caret st' k v))"
  using assms
proof (cases rule: ensureAllPackages_cases)
  case (1 A st1 index deps lines ms0 c st2)
  note rq = require_cases [OF 1(1)]
  have st1: "st1 = st\<lparr>cache := (cache st)(allPackagesPath e \<mapsto> A)\<rparr>"
    using rq by (auto simp: map_upd_triv)
  note fl = allPackages_fold [OF 1(3)]
  note pd = ensurePackageData_cases [OF 1(4)]
  note pf = ensurePackageData_frame [OF 1(4)]
  obtain ms1 where ch: "changed ms0 (c, st2) = (ms1, st2)"
    and ms1: "ms1 = (if c then ms0 @ [''Package data changed''] else ms0)"
    by (simp add: changed_def)
  note wi = writeIndex_props [OF 1(5) [unfolded ch]]
  have c': "cache st' = (cache st)(allPackagesPath e \<mapsto> A\<lparr>dependencies := deps\<rparr>)"
    using wi pf(1) st1 by simp
  have h1: "pkgPaths st' = pkgPaths st \<and> pkgNames st' = pkgNames st \<and> seenDeps st' = seenDeps st"
    using wi pf st1 by simp
  have h2: "\<forall>q. q \<noteq> allPackagesPath e \<longrightarrow> cache st' q = cache st q \<and> manifests st' q = manifests st q"
  proof (intro allI impI conjI)
    fix q assume q: "q \<noteq> allPackagesPath e"
    show "cache st' q = cache st q" using c' q by simp
    have "manifests st' q = manifests st2 q" using wi by simp
    also have "\<dots> = manifests st1 q" using ensurePackageData_other [OF 1(4) q] by simp
    finally show "manifests st' q = manifests st q" using st1 by simp
  qed
  have h3: "\<forall>f. f \<noteq> indexPath e \<longrightarrow> files st' f = files st f"
    using wi pf(2) st1 by (cases "join ''\<newline>'' lines = index") auto
  have empty: "ms0 = [] \<and> \<not> c \<and> join ''\<newline>'' lines = index" if "ms = []"
    using that wi ms1 by (cases "join ''\<newline>'' lines = index"; cases c; simp)
  have h4: "ms = [] \<longrightarrow> manifests st' = manifests st \<and> files st' = files st"
  proof
    assume "ms = []"
    from empty [OF this] have "st' = st2" "st2 = st1\<lparr>cache := (cache st1)(allPackagesPath e \<mapsto>
        A\<lparr>dependencies := deps\<rparr>)\<rparr>"
      using wi pf(6) by simp_all
    then show "manifests st' = manifests st \<and> files st' = files st"
      using st1 by simp
  qed
  have stable: "caret st' k v" if "caret st1 k v" for k v
  proof (rule caret_stable [OF that])
    show "pkgPaths st' = pkgPaths st1" using wi pf st1 by simp
    show "\<exists>obj'. cache st' q = Some obj' \<and> alike obj obj'" if "cache st1 q = Some obj" for q obj
      using that c' st1 by (cases "q = allPackagesPath e") (auto simp: alike_def)
  qed
  have h5: "\<exists>A deps. require (allPackagesPath e) st = Inr (A, st\<lparr>cache := (cache st)(allPackagesPath e \<mapsto> A)\<rparr>) \<and>
       cache st' (allPackagesPath e) = Some (A\<lparr>dependencies := deps\<rparr>) \<and>
       (ms = [] \<longrightarrow> deps = dependencies A) \<and>
       fst ` set (dependencies A) \<subseteq> fst ` set deps \<and>
       (\<forall>k. \<not> js_not (js_get (dependencies A) k) \<longrightarrow> js_get deps k = js_get (dependencies A) k) \<and>
       (\<forall>k v. js_get deps k = Some v \<longrightarrow> js_get (dependencies A) k = Some v \<or> caret st' k v)"
  proof (intro exI [of _ A] exI [of _ deps] conjI allI impI)
    show "require (allPackagesPath e) st = Inr (A, st\<lparr>cache := (cache st)(allPackagesPath e \<mapsto> A)\<rparr>)"
      using 1(1) st1 by simp
    show "cache st' (allPackagesPath e) = Some (A\<lparr>dependencies := deps\<rparr>)"
      using c' by simp
    show "deps = dependencies A" if "ms = []"
      using empty [OF that] fl by simp
    show "fst ` set (dependencies A) \<subseteq> fst ` set deps"
      using fl by simp
    show "js_get deps k = js_get (dependencies A) k" if "\<not> js_not (js_get (dependencies A) k)" for k
      using that fl by simp
    show "js_get (dependencies A) k = Some v \<or> caret st' k v" if "js_get deps k = Some v" for k v
    proof -
      from that fl have "js_get (dependencies A) k = Some v \<or> caret st1 k v" by simp
      then show ?thesis using stable by auto
    qed
  qed
  show ?thesis
    by (rule conjI [OF h1 conjI [OF h2 conjI [OF h3 conjI [OF h4 h5]]]])
qed

lemma ensureAllPackages_props:
  assumes "ensureAllPackages e st = Inr (ms, st')"
  shows "pkgPaths st' = pkgPaths st" "pkgNames st' = pkgNames st" "seenDeps st' = seenDeps st"
    and "\<forall>q. q \<noteq> allPackagesPath e \<longrightarrow> cache st' q = cache st q \<and> manifests st' q = manifests st q"
    and "\<forall>f. f \<noteq> indexPath e \<longrightarrow> files st' f = files st f"
    and "ms = [] \<longrightarrow> manifests st' = manifests st \<and> files st' = files st"
    and "\<exists>A deps. require (allPackagesPath e) st = Inr (A, st\<lparr>cache := (cache st)(allPackagesPath e \<mapsto> A)\<rparr>) \<and>
       cache st' (allPackagesPath e) = Some (A\<lparr>dependencies := deps\<rparr>) \<and>
       (ms = [] \<longrightarrow> deps = dependencies A) \<and>
       fst ` set (dependencies A) \<subseteq> fst ` set deps \<and>
       (\<forall>k. \<not> js_not (js_get (dependencies A) k) \<longrightarrow> js_get deps k = js_get (dependencies A) k) \<and>
       (\<forall>k v. js_get deps k = Some v \<longrightarrow> js_get (dependencies A) k = Some v \<or> caret st' k v)"
  using ensureAllPackages_all [OF assms] by blast+

lemma pruned_get: "js_get (pruned p names deps) k = Some v \<Longrightarrow> js_get deps k = Some v"
  unfolding pruned_def using js_get_filter [of "\<lambda>k. \<not> unusedIn p names k" deps k]
  by (auto split: if_splits)

lemma checkImports_all:
  assumes "checkImports e p dname ms st = Inr (ms', st')"
  shows "(pkgPaths st' = pkgPaths st \<and> pkgNames st' = pkgNames st \<and> files st' = files st)
    \<and> (seenDeps st \<subseteq>\<^sub>m seenDeps st' \<and>
        (\<forall>k v. seenDeps st' k = Some v \<longrightarrow> seenDeps st k = Some v \<or> v = getDependency e k))
    \<and> (\<forall>q. q \<noteq> dname \<longrightarrow> cache st' q = cache st q \<and> manifests st' q = manifests st q)
    \<and> (\<exists>data data'. cache st dname = Some data \<and> cache st' dname = Some data' \<and> alike data data' \<and>
          devDependencies data' = devDependencies data \<and>
          (\<forall>k v. js_get (dependencies data') k = Some v \<longrightarrow>
             js_get (dependencies data) k = Some v \<or> seenDeps st' k = Some v))
    \<and> (ms' = ms \<longrightarrow> manifests st' = manifests st)
    \<and> (\<exists>xs. ms' = ms @ xs)"
  using assms
proof (cases rule: checkImports_cases)
  case (none data c)
  note pf = ensurePackageData_frame [OF none(3)]
  have h1: "pkgPaths st' = pkgPaths st \<and> pkgNames st' = pkgNames st \<and> files st' = files st"
    using pf by simp
  have h2: "seenDeps st \<subseteq>\<^sub>m seenDeps st' \<and>
        (\<forall>k v. seenDeps st' k = Some v \<longrightarrow> seenDeps st k = Some v \<or> v = getDependency e k)"
    using pf by simp
  have h3: "\<forall>q. q \<noteq> dname \<longrightarrow> cache st' q = cache st q \<and> manifests st' q = manifests st q"
    using pf ensurePackageData_other [OF none(3)] by simp
  have h4: "\<exists>data data'. cache st dname = Some data \<and> cache st' dname = Some data' \<and> alike data data' \<and>
          devDependencies data' = devDependencies data \<and>
          (\<forall>k v. js_get (dependencies data') k = Some v \<longrightarrow>
             js_get (dependencies data) k = Some v \<or> seenDeps st' k = Some v)"
    using pf none(1) by (intro exI [of _ data]) (simp add: alike_refl)
  have h5: "ms' = ms \<longrightarrow> manifests st' = manifests st"
    using none(4) pf(6) by (cases c) auto
  have h6: "\<exists>xs. ms' = ms @ xs"
    using none(4) by (cases c) auto
  show ?thesis
    by (rule conjI [OF h1 conjI [OF h2 conjI [OF h3 conjI [OF h4 conjI [OF h5 h6]]]]])
next
  case (some data names ms1 seen1 deps1 c)
  note pf = ensurePackageData_frame [OF some(5)]
  note mp = missingStep_props [OF some(4)]
  let ?data' = "data\<lparr>dependencies := pruned p names deps1\<rparr>"
  have h1: "pkgPaths st' = pkgPaths st \<and> pkgNames st' = pkgNames st \<and> files st' = files st"
    using pf by simp
  have s': "seenDeps st' = seen1" using pf by simp
  have h2: "seenDeps st \<subseteq>\<^sub>m seenDeps st' \<and>
        (\<forall>k v. seenDeps st' k = Some v \<longrightarrow> seenDeps st k = Some v \<or> v = getDependency e k)"
    using mp s' by simp
  have c': "cache st' = (cache st)(dname \<mapsto> ?data')" using pf by simp
  have h3: "\<forall>q. q \<noteq> dname \<longrightarrow> cache st' q = cache st q \<and> manifests st' q = manifests st q"
    using c' ensurePackageData_other [OF some(5)] by simp
  have h4: "\<exists>data data'. cache st dname = Some data \<and> cache st' dname = Some data' \<and> alike data data' \<and>
          devDependencies data' = devDependencies data \<and>
          (\<forall>k v. js_get (dependencies data') k = Some v \<longrightarrow>
             js_get (dependencies data) k = Some v \<or> seenDeps st' k = Some v)"
  proof (rule exI [of _ data], rule exI [of _ ?data'], intro conjI allI impI)
    show "cache st dname = Some data" by (rule some(1))
    show "cache st' dname = Some ?data'" using c' by simp
    show "alike data ?data'" by (simp add: alike_def)
    show "devDependencies ?data' = devDependencies data" by simp
    show "js_get (dependencies data) k = Some v \<or> seenDeps st' k = Some v"
      if "js_get (dependencies ?data') k = Some v" for k v
    proof -
      from that have "js_get deps1 k = Some v" by (auto dest: pruned_get)
      then show ?thesis using mp s' by simp
    qed
  qed
  obtain xs where xs: "ms1 = ms @ xs" using mp by blast
  have h5: "ms' = ms \<longrightarrow> manifests st' = manifests st"
  proof
    assume "ms' = ms"
    with some(6) xs have "\<not> c" by (cases c) (auto simp: Let_def)
    then show "manifests st' = manifests st" using pf(6) by simp
  qed
  have h6: "\<exists>xs. ms' = ms @ xs"
    using some(6) xs by (cases c) (auto simp: Let_def)
  show ?thesis
    by (rule conjI [OF h1 conjI [OF h2 conjI [OF h3 conjI [OF h4 conjI [OF h5 h6]]]]])
qed

lemma evolved_refl: "evolved st st"
  by (auto simp: evolved_def alike_refl)

lemma evolved_trans: "evolved a b \<Longrightarrow> evolved b c \<Longrightarrow> evolved a c"
  unfolding evolved_def by (metis alike_trans)

lemma caret_evolved: "caret st k v \<Longrightarrow> evolved st st' \<Longrightarrow> caret st' k v"
  by (rule caret_stable) (auto simp: evolved_def)

text \<open>The effect of lines 63 to 65 on the state left by lines 47 to 61.\<close>

lemma special_case:
  assumes "(if p = ''@jupyterlab/all-packages'' then ensureAllPackages e st1 else Inr ([], st1)) =
      Inr (ms0, st2)"
  shows "(pkgPaths st2 = pkgPaths st1 \<and> pkgNames st2 = pkgNames st1 \<and> seenDeps st2 = seenDeps st1)
    \<and> (\<forall>q. q \<noteq> allPackagesPath e \<longrightarrow> cache st2 q = cache st1 q \<and> manifests st2 q = manifests st1 q)
    \<and> (\<forall>q obj. cache st1 q = Some obj \<longrightarrow>
          (\<exists>obj'. cache st2 q = Some obj' \<and> alike obj obj' \<and>
             devDependencies obj' = devDependencies obj \<and>
             (\<forall>k v. js_get (dependencies obj') k = Some v \<longrightarrow>
                js_get (dependencies obj) k = Some v \<or> (q = allPackagesPath e \<and> caret st2 k v))))
    \<and> (ms0 = [] \<longrightarrow> manifests st2 = manifests st1 \<and> files st2 = files st1)
    \<and> (p \<noteq> ''@jupyterlab/all-packages'' \<longrightarrow> st2 = st1 \<and> ms0 = [])
    \<and> (\<forall>f. f \<noteq> indexPath e \<longrightarrow> files st2 f = files st1 f)"
proof (cases "p = ''@jupyterlab/all-packages''")
  case False
  with assms have "st2 = st1" "ms0 = []" by simp_all
  then show ?thesis using False by (simp add: alike_refl)
next
  case True
  with assms have run: "ensureAllPackages e st1 = Inr (ms0, st2)" by simp
  note ap = ensureAllPackages_props [OF run]
  have h1: "pkgPaths st2 = pkgPaths st1 \<and> pkgNames st2 = pkgNames st1 \<and> seenDeps st2 = seenDeps st1"
    using ap(1-3) by simp
  have h3: "\<forall>q obj. cache st1 q = Some obj \<longrightarrow>
          (\<exists>obj'. cache st2 q = Some obj' \<and> alike obj obj' \<and>
             devDependencies obj' = devDependencies obj \<and>
             (\<forall>k v. js_get (dependencies obj') k = Some v \<longrightarrow>
                js_get (dependencies obj) k = Some v \<or> (q = allPackagesPath e \<and> caret st2 k v)))"
  proof (intro allI impI)
    fix q obj assume q: "cache st1 q = Some obj"
    show "\<exists>obj'. cache st2 q = Some obj' \<and> alike obj obj' \<and>
             devDependencies obj' = devDependencies obj \<and>
             (\<forall>k v. js_get (dependencies obj') k = Some v \<longrightarrow>
                js_get (dependencies obj) k = Some v \<or> (q = allPackagesPath e \<and> caret st2 k v))"
    proof (cases "q = allPackagesPath e")
      case False
      then show ?thesis using ap(4) q by (simp add: alike_refl)
    next
      case True
      from ap(7) obtain A deps where
        r: "require (allPackagesPath e) st1 = Inr (A, st1\<lparr>cache := (cache st1)(allPackagesPath e \<mapsto> A)\<rparr>)"
        and c2: "cache st2 (allPackagesPath e) = Some (A\<lparr>dependencies := deps\<rparr>)"
        and d: "\<forall>k v. js_get deps k = Some v \<longrightarrow> js_get (dependencies A) k = Some v \<or> caret st2 k v"
        by blast
      have "A = obj" using require_cases [OF r] q True by auto
      then show ?thesis using c2 d True by (simp add: alike_def)
    qed
  qed
  show ?thesis
    using True
    by (intro conjI [OF h1 conjI [OF ap(4) conjI [OF h3 conjI [OF ap(6) conjI [OF _ ap(5)]]]]]) simp
qed

lemma ensurePackage_all:
  assumes "ensurePackage e p st = Inr (ms, st')" and "js_get (pkgPaths st) p = Some dname"
  shows "evolved st st'
    \<and> (seenDeps st \<subseteq>\<^sub>m seenDeps st' \<and>
        (\<forall>k v. seenDeps st' k = Some v \<longrightarrow> seenDeps st k = Some v \<or> v = getDependency e k))
    \<and> (\<forall>q. q \<noteq> dname \<and> q \<noteq> allPackagesPath e \<longrightarrow> cache st' q = cache st q)
    \<and> (\<forall>q obj. q \<noteq> dname \<and> cache st q = Some obj \<longrightarrow>
          (\<exists>obj'. cache st' q = Some obj' \<and> devDependencies obj' = devDependencies obj \<and>
             (\<forall>k v. js_get (dependencies obj') k = Some v \<longrightarrow>
                js_get (dependencies obj) k = Some v \<or>
                (q = allPackagesPath e \<and> caret st' k v))))
    \<and> (\<exists>obj'. cache st' dname = Some obj' \<and> settled (seenDeps st') (devDependencies obj') \<and>
          (\<forall>k v. js_get (dependencies obj') k = Some v \<longrightarrow>
             seenDeps st' k = Some v \<or> (dname = allPackagesPath e \<and> caret st' k v)))
    \<and> (ms = [] \<longrightarrow> manifests st' = manifests st \<and> files st' = files st)"
  using assms(1)
proof (cases rule: ensurePackage_cases)
  case (1 dname' data ms0 st2)
  have dname': "dname' = dname" using 1(1) assms(2) by simp
  note 1 = 1 [unfolded dname']
  define st1 where "st1 = verifyDependencies e dname data st"
  note vp = verifyDependencies_props [OF st1_def]
  from vp(7) obtain data1 where c1: "cache st1 = (cache st)(dname \<mapsto> data1)"
    and al1: "alike data data1"
    and set1: "settled (seenDeps st1) (dependencies data1)"
      "settled (seenDeps st1) (devDependencies data1)"
    by blast
  note sc = special_case [OF 1(3) [folded st1_def]]
  note sc1 = sc [THEN conjunct1]
  note sc2 = sc [THEN conjunct2, THEN conjunct1]
  note sc3 = sc [THEN conjunct2, THEN conjunct2, THEN conjunct1]
  note sc4 = sc [THEN conjunct2, THEN conjunct2, THEN conjunct2, THEN conjunct1]
  note ci = checkImports_all [OF 1(4)]
  note ci1 = ci [THEN conjunct1]
  note ci2 = ci [THEN conjunct2, THEN conjunct1]
  note ci3 = ci [THEN conjunct2, THEN conjunct2, THEN conjunct1]
  note ci4 = ci [THEN conjunct2, THEN conjunct2, THEN conjunct2, THEN conjunct1]
  note ci5 = ci [THEN conjunct2, THEN conjunct2, THEN conjunct2, THEN conjunct2, THEN conjunct1]
  note ci6 = ci [THEN conjunct2, THEN conjunct2, THEN conjunct2, THEN conjunct2, THEN conjunct2]
  from ci4 obtain data2 data' where c2: "cache st2 dname = Some data2"
    and c': "cache st' dname = Some data'" and al3: "alike data2 data'"
    and dev3: "devDependencies data' = devDependencies data2"
    and dep3: "\<forall>k v. js_get (dependencies data') k = Some v \<longrightarrow>
             js_get (dependencies data2) k = Some v \<or> seenDeps st' k = Some v"
    by blast
  have e1: "evolved st st1"
    unfolding evolved_def using vp(3,4) c1 al1 1(2) by (auto simp: alike_refl)
  have e2: "evolved st1 st2"
    unfolding evolved_def using sc1 sc3 by blast
  have e3: "evolved st2 st'"
    unfolding evolved_def
  proof (intro conjI allI impI)
    show "pkgPaths st' = pkgPaths st2" "pkgNames st' = pkgNames st2" using ci1 by simp_all
    show "\<exists>obj'. cache st' q = Some obj' \<and> alike obj obj'" if "cache st2 q = Some obj" for q obj
      using that ci3 c2 c' al3 by (cases "q = dname") (auto simp: alike_refl)
  qed
  have h1: "evolved st st'"
    using e1 e2 e3 by (blast intro: evolved_trans)
  have m12: "seenDeps st1 \<subseteq>\<^sub>m seenDeps st'" using sc1 ci2 by simp
  have h2: "seenDeps st \<subseteq>\<^sub>m seenDeps st' \<and>
        (\<forall>k v. seenDeps st' k = Some v \<longrightarrow> seenDeps st k = Some v \<or> v = getDependency e k)"
  proof (intro conjI allI impI)
    show "seenDeps st \<subseteq>\<^sub>m seenDeps st'"
      using vp(5) m12 by (rule map_le_trans)
    show "seenDeps st k = Some v \<or> v = getDependency e k" if "seenDeps st' k = Some v" for k v
    proof -
      from that ci2 have "seenDeps st2 k = Some v \<or> v = getDependency e k" by simp
      then show ?thesis using sc1 vp(6) by auto
    qed
  qed
  have other: "\<exists>obj'. cache st' q = Some obj' \<and> devDependencies obj' = devDependencies obj \<and>
                (\<forall>k v. js_get (dependencies obj') k = Some v \<longrightarrow>
                   js_get (dependencies obj) k = Some v \<or>
                   (q = allPackagesPath e \<and> caret st' k v))"
    if q: "q \<noteq> dname" "cache st q = Some obj" for q obj
  proof -
    have "cache st1 q = Some obj" using q c1 by simp
    from sc3 [rule_format, OF this] obtain obj2 where o2: "cache st2 q = Some obj2"
      "devDependencies obj2 = devDependencies obj"
      "\<forall>k v. js_get (dependencies obj2) k = Some v \<longrightarrow>
                js_get (dependencies obj) k = Some v \<or> (q = allPackagesPath e \<and> caret st2 k v)"
      by blast
    have "cache st' q = Some obj2" using ci3 q(1) o2(1) by simp
    then show ?thesis using o2(2,3) caret_evolved [OF _ e3] by blast
  qed
  have self: "\<exists>obj'. cache st' dname = Some obj' \<and> settled (seenDeps st') (devDependencies obj') \<and>
             (\<forall>k v. js_get (dependencies obj') k = Some v \<longrightarrow>
                seenDeps st' k = Some v \<or> (dname = allPackagesPath e \<and> caret st' k v))"
  proof (intro exI [of _ data'] conjI allI impI)
    show "cache st' dname = Some data'" by (rule c')
    have c1d: "cache st1 dname = Some data1" using c1 by simp
    from sc3 [rule_format, OF c1d] obtain obj2 where "cache st2 dname = Some obj2"
      "devDependencies obj2 = devDependencies data1"
      "\<forall>k v. js_get (dependencies obj2) k = Some v \<longrightarrow>
                js_get (dependencies data1) k = Some v \<or>
                (dname = allPackagesPath e \<and> caret st2 k v)"
      by blast
    with c2 have o2: "devDependencies data2 = devDependencies data1"
      "\<forall>k v. js_get (dependencies data2) k = Some v \<longrightarrow>
                js_get (dependencies data1) k = Some v \<or>
                (dname = allPackagesPath e \<and> caret st2 k v)"
      by simp_all
    show "settled (seenDeps st') (devDependencies data')"
      using settled_mono [OF set1(2) m12] dev3 o2(1) by simp
    show "seenDeps st' k = Some v \<or> (dname = allPackagesPath e \<and> caret st' k v)"
      if "js_get (dependencies data') k = Some v" for k v
    proof -
      from that dep3 consider "js_get (dependencies data2) k = Some v" | "seenDeps st' k = Some v"
        by blast
      then show ?thesis
      proof cases
        case 1
        with o2(2) consider "js_get (dependencies data1) k = Some v"
          | "dname = allPackagesPath e \<and> caret st2 k v" by blast
        then show ?thesis
        proof cases
          case 1
          then have "seenDeps st1 k = Some v" using set1(1) by (simp add: settled_def)
          then show ?thesis using m12 by (auto dest: map_le_Some)
        next
          case 2
          then show ?thesis using caret_evolved [OF _ e3] by blast
        qed
      next
        case 2
        then show ?thesis by simp
      qed
    qed
  qed
  have h3a: "\<forall>q. q \<noteq> dname \<and> q \<noteq> allPackagesPath e \<longrightarrow> cache st' q = cache st q"
    using ci3 sc2 c1 by simp
  have h3b: "\<forall>q obj. q \<noteq> dname \<and> cache st q = Some obj \<longrightarrow>
          (\<exists>obj'. cache st' q = Some obj' \<and> devDependencies obj' = devDependencies obj \<and>
             (\<forall>k v. js_get (dependencies obj') k = Some v \<longrightarrow>
                js_get (dependencies obj) k = Some v \<or>
                (q = allPackagesPath e \<and> caret st' k v)))"
    using other by simp
  have h4: "ms = [] \<longrightarrow> manifests st' = manifests st \<and> files st' = files st"
  proof
    assume "ms = []"
    with ci6 have "ms0 = []" by auto
    with sc4 have "manifests st2 = manifests st1 \<and> files st2 = files st1" by simp
    moreover from \<open>ms = []\<close> \<open>ms0 = []\<close> ci5 have "manifests st' = manifests st2" by simp
    ultimately show "manifests st' = manifests st \<and> files st' = files st"
      using ci1 vp(1,2) by simp
  qed
  show ?thesis
    by (rule conjI [OF h1 conjI [OF h2 conjI [OF h3a conjI [OF h3b conjI [OF self h4]]]]])
qed

lemma ensurePackage_path:
  assumes "ensurePackage e p st = Inr (ms, st')"
  obtains dname where "js_get (pkgPaths st) p = Some dname"
  using assms by (cases rule: ensurePackage_cases)

lemma ensurePackage_evolved:
  assumes "ensurePackage e p st = Inr (ms, st')"
  shows "evolved st st'"
proof -
  from assms obtain dname where "js_get (pkgPaths st) p = Some dname"
    by (rule ensurePackage_path)
  with assms show ?thesis by (rule ensurePackage_all [THEN conjunct1])
qed

lemma registered_evolved: "registered st \<Longrightarrow> evolved st st' \<Longrightarrow> registered st'"
  unfolding registered_def evolved_def alike_def by metis

lemma registered_inj:
  "registered st \<Longrightarrow> js_get (pkgPaths st) n = Some d \<Longrightarrow> js_get (pkgPaths st) n' = Some d \<Longrightarrow> n = n'"
  unfolding registered_def by (metis option.inject)

lemma validate_cases:
  assumes "validate e nm (report, st) = Inr (report', st')"
  obtains ms where "ensurePackage e nm st = Inr (ms, st')"
    "report' = (if length ms > 0 then js_set report nm (Messages ms) else report)"
proof -
  from assms have "\<exists>r. ensurePackage e nm st = Inr r \<and>
      (case r of (pkgMessages, st') \<Rightarrow>
          Inr (if length pkgMessages > 0 then js_set report nm (Messages pkgMessages)
               else report, st')) = Inr (report', st')"
    by (simp add: validate_def bindE_Inr)
  then obtain r where rk: "ensurePackage e nm st = Inr r \<and>
      (case r of (pkgMessages, st') \<Rightarrow>
          Inr (if length pkgMessages > 0 then js_set report nm (Messages pkgMessages)
               else report, st')) = Inr (report', st')" ..
  note r = rk [THEN conjunct1] and k = rk [THEN conjunct2]
  obtain ms s where "r = (ms, s)" by (cases r)
  then show ?thesis using that r k by simp
qed

lemma validate_loop:
  assumes "foldE (validate e) names (report, st) = Inr (report', st')"
    and "registered st" and "distinct names"
  shows "evolved st st'
    \<and> (seenDeps st \<subseteq>\<^sub>m seenDeps st' \<and>
        (\<forall>k v. seenDeps st' k = Some v \<longrightarrow> seenDeps st k = Some v \<or> v = getDependency e k))
    \<and> (\<forall>nm\<in>set names. \<exists>d obj'. js_get (pkgPaths st) nm = Some d \<and> cache st' d = Some obj' \<and>
          tidy e st' d obj')
    \<and> (\<forall>q obj. cache st q = Some obj \<and> (\<forall>nm\<in>set names. js_get (pkgPaths st) nm \<noteq> Some q) \<longrightarrow>
          (\<exists>obj'. cache st' q = Some obj' \<and> devDependencies obj' = devDependencies obj \<and>
             (\<forall>k v. js_get (dependencies obj') k = Some v \<longrightarrow>
                js_get (dependencies obj) k = Some v \<or> (q = allPackagesPath e \<and> caret st' k v))))"
  using assms
proof (induction names arbitrary: report st)
  case Nil
  then show ?case by (simp add: evolved_refl)
next
  case (Cons x xs)
  from Cons.prems(1) obtain r1 where v: "validate e x (report, st) = Inr r1"
    and rest: "foldE (validate e) xs r1 = Inr (report', st')"
    by (auto simp: bindE_Inr)
  obtain report1 st1 where r1: "r1 = (report1, st1)" by (cases r1)
  from v r1 obtain ms where run: "ensurePackage e x st = Inr (ms, st1)"
    by (auto elim: validate_cases)
  from run obtain dname where dn: "js_get (pkgPaths st) x = Some dname"
    by (rule ensurePackage_path)
  note ep = ensurePackage_all [OF run dn]
  note ep1 = ep [THEN conjunct1]
  note ep2 = ep [THEN conjunct2, THEN conjunct1]
  note oth = ep [THEN conjunct2, THEN conjunct2, THEN conjunct2, THEN conjunct1]
  note slf = ep [THEN conjunct2, THEN conjunct2, THEN conjunct2, THEN conjunct2, THEN conjunct1]
  have reg1: "registered st1" using Cons.prems(2) ep1 by (rule registered_evolved)
  have dist: "distinct xs" "x \<notin> set xs" using Cons.prems(3) by simp_all
  note ih = Cons.IH [OF rest [unfolded r1] reg1 dist(1)]
  note ih1 = ih [THEN conjunct1]
  note ih2 = ih [THEN conjunct2, THEN conjunct1]
  note ih3 = ih [THEN conjunct2, THEN conjunct2, THEN conjunct1]
  note ih4 = ih [THEN conjunct2, THEN conjunct2, THEN conjunct2]
  have paths: "pkgPaths st1 = pkgPaths st" using ep1 by (simp add: evolved_def)
  have m1: "seenDeps st1 \<subseteq>\<^sub>m seenDeps st'" using ih2 by simp
  have h1: "evolved st st'" using ep1 ih1 by (rule evolved_trans)
  have h2: "seenDeps st \<subseteq>\<^sub>m seenDeps st' \<and>
        (\<forall>k v. seenDeps st' k = Some v \<longrightarrow> seenDeps st k = Some v \<or> v = getDependency e k)"
  proof (intro conjI allI impI)
    show "seenDeps st \<subseteq>\<^sub>m seenDeps st'"
      using ep2 m1 by (blast intro: map_le_trans)
    show "seenDeps st k = Some v \<or> v = getDependency e k" if "seenDeps st' k = Some v" for k v
    proof -
      from that ih2 have "seenDeps st1 k = Some v \<or> v = getDependency e k" by simp
      then show ?thesis using ep2 by auto
    qed
  qed
  have notlater: "\<forall>nm\<in>set xs. js_get (pkgPaths st1) nm \<noteq> Some dname"
  proof
    fix nm assume nm: "nm \<in> set xs"
    show "js_get (pkgPaths st1) nm \<noteq> Some dname"
    proof
      assume "js_get (pkgPaths st1) nm = Some dname"
      with dn paths have "nm = x" using registered_inj [OF Cons.prems(2)] by simp
      with nm dist(2) show False by simp
    qed
  qed
  have first: "\<exists>d obj'. js_get (pkgPaths st) x = Some d \<and> cache st' d = Some obj' \<and> tidy e st' d obj'"
  proof -
    from slf obtain obj1 where o1: "cache st1 dname = Some obj1"
      "settled (seenDeps st1) (devDependencies obj1)"
      "\<forall>k v. js_get (dependencies obj1) k = Some v \<longrightarrow>
                seenDeps st1 k = Some v \<or> (dname = allPackagesPath e \<and> caret st1 k v)"
      by blast
    from ih4 [rule_format, of dname obj1] o1(1) notlater
    obtain obj' where o': "cache st' dname = Some obj'"
      "devDependencies obj' = devDependencies obj1"
      "\<forall>k v. js_get (dependencies obj') k = Some v \<longrightarrow>
                js_get (dependencies obj1) k = Some v \<or> (dname = allPackagesPath e \<and> caret st' k v)"
      by blast
    have "tidy e st' dname obj'"
      unfolding tidy_def
    proof (intro conjI allI impI)
      show "settled (seenDeps st') (devDependencies obj')"
        using settled_mono [OF o1(2) m1] o'(2) by simp
      show "seenDeps st' k = Some v \<or> (dname = allPackagesPath e \<and> caret st' k v)"
        if "js_get (dependencies obj') k = Some v" for k v
      proof -
        from that o'(3) consider "js_get (dependencies obj1) k = Some v"
          | "dname = allPackagesPath e \<and> caret st' k v" by blast
        then show ?thesis
        proof cases
          case 1
          with o1(3) consider "seenDeps st1 k = Some v"
            | "dname = allPackagesPath e \<and> caret st1 k v" by blast
          then show ?thesis
          proof cases
            case 1
            then show ?thesis using m1 by (auto dest: map_le_Some)
          next
            case 2
            then show ?thesis using caret_evolved [OF _ ih1] by blast
          qed
        next
          case 2
          then show ?thesis by simp
        qed
      qed
    qed
    then show ?thesis using dn o'(1) by blast
  qed
  have h3: "\<forall>nm\<in>set (x # xs). \<exists>d obj'. js_get (pkgPaths st) nm = Some d \<and> cache st' d = Some obj' \<and>
          tidy e st' d obj'"
    using first ih3 paths by simp
  have h4: "\<forall>q obj. cache st q = Some obj \<and> (\<forall>nm\<in>set (x # xs). js_get (pkgPaths st) nm \<noteq> Some q) \<longrightarrow>
          (\<exists>obj'. cache st' q = Some obj' \<and> devDependencies obj' = devDependencies obj \<and>
             (\<forall>k v. js_get (dependencies obj') k = Some v \<longrightarrow>
                js_get (dependencies obj) k = Some v \<or> (q = allPackagesPath e \<and> caret st' k v)))"
  proof (intro allI impI)
    fix q obj
    assume a: "cache st q = Some obj \<and> (\<forall>nm\<in>set (x # xs). js_get (pkgPaths st) nm \<noteq> Some q)"
    then have q: "q \<noteq> dname" using dn by auto
    from oth [rule_format, of q obj] q a obtain obj1 where o1: "cache st1 q = Some obj1"
      "devDependencies obj1 = devDependencies obj"
      "\<forall>k v. js_get (dependencies obj1) k = Some v \<longrightarrow>
                   js_get (dependencies obj) k = Some v \<or> (q = allPackagesPath e \<and> caret st1 k v)"
      by blast
    have "\<forall>nm\<in>set xs. js_get (pkgPaths st1) nm \<noteq> Some q" using a paths by simp
    with ih4 [rule_format, of q obj1] o1(1) obtain obj' where o': "cache st' q = Some obj'"
      "devDependencies obj' = devDependencies obj1"
      "\<forall>k v. js_get (dependencies obj') k = Some v \<longrightarrow>
                js_get (dependencies obj1) k = Some v \<or> (q = allPackagesPath e \<and> caret st' k v)"
      by blast
    show "\<exists>obj'. cache st' q = Some obj' \<and> devDependencies obj' = devDependencies obj \<and>
             (\<forall>k v. js_get (dependencies obj') k = Some v \<longrightarrow>
                js_get (dependencies obj) k = Some v \<or> (q = allPackagesPath e \<and> caret st' k v))"
    proof (intro exI [of _ obj'] conjI allI impI)
      show "cache st' q = Some obj'" by (rule o'(1))
      show "devDependencies obj' = devDependencies obj" using o'(2) o1(2) by simp
      show "js_get (dependencies obj) k = Some v \<or> (q = allPackagesPath e \<and> caret st' k v)"
        if "js_get (dependencies obj') k = Some v" for k v
      proof -
        from that o'(3) consider "js_get (dependencies obj1) k = Some v"
          | "q = allPackagesPath e \<and> caret st' k v" by blast
        then show ?thesis
        proof cases
          case 1
          with o1(3) show ?thesis using caret_evolved [OF _ ih1] by blast
        next
          case 2
          then show ?thesis by simp
        qed
      qed
    qed
  qed
  show ?case
    by (rule conjI [OF h1 conjI [OF h2 conjI [OF h3 h4]]])
qed

lemma checkImports_dependencies_only:
  assumes "checkImports e p dname ms st = Inr (ms', st')"
  shows "\<exists>data data'. cache st dname = Some data \<and> cache st' dname = Some data' \<and>
           data' = data\<lparr>dependencies := dependencies data'\<rparr>"
  using assms
proof (cases rule: checkImports_cases)
  case (none data c)
  then show ?thesis using ensurePackageData_frame(1) [OF none(3)] by simp
next
  case (some data names ms1 seen1 deps1 c)
  then show ?thesis using ensurePackageData_frame(1) [OF some(5)] by simp
qed

lemma validate_loop_evolved:
  assumes "foldE (validate e) names (report, st) = Inr (report', st')"
  shows "evolved st st'"
proof -
  have "evolved st (snd (report', st'))"
  proof (rule foldE_invariant [OF assms, where P = "\<lambda>a. evolved st (snd a)"])
    show "evolved st (snd (report, st))" by (simp add: evolved_refl)
    show "evolved st (snd b)"
      if "x \<in> set names" "evolved st (snd a)" "validate e x a = Inr b" for x a b
    proof -
      obtain r s where a: "a = (r, s)" by (cases a)
      obtain r' s' where b: "b = (r', s')" by (cases b)
      from that(3) have "validate e x (r, s) = Inr (r', s')" by (simp add: a b)
      then obtain ms where "ensurePackage e x s = Inr (ms, s')"
        by (rule validate_cases)
      then have "evolved s s'" by (rule ensurePackage_evolved)
      moreover have "evolved st s" using that(2) a by simp
      ultimately have "evolved st s'" by (rule evolved_trans [rotated])
      then show ?thesis by (simp add: b)
    qed
  qed
  then show ?thesis by simp
qed

lemma distinct_js_set: "distinct (map fst obj) \<Longrightarrow> distinct (map fst (js_set obj k v))"
  by (simp add: js_set_keys)

lemma ensureDependency_distinct:
  assumes "ensureDependency st nm deps = Inr (valid, deps')" "distinct (map fst deps)"
  shows "distinct (map fst deps')"
proof -
  from assms(1) have "deps' = deps \<or> (\<exists>v. deps' = js_set deps nm v)"
    by (auto simp: ensureDependency_def split: if_splits option.splits)
  then show ?thesis using assms(2) by (auto simp: distinct_js_set)
qed

lemma allPackages_fold_distinct:
  assumes "foldE (allPackagesStep e st index) qs (deps, lines, ms) = Inr (deps', lines', ms')"
    and "distinct (map fst deps)"
  shows "distinct (map fst deps')"
proof -
  have "distinct (map fst (fst (deps', lines', ms')))"
  proof (rule foldE_invariant [OF assms(1), where P = "\<lambda>a. distinct (map fst (fst a))"])
    show "distinct (map fst (fst (deps, lines, ms)))" using assms(2) by simp
    show "distinct (map fst (fst b))"
      if "distinct (map fst (fst a))" "allPackagesStep e st index x a = Inr b" for x a b
    proof (cases "x = allPackagesPath e")
      case True
      then show ?thesis using that by (simp add: allPackagesStep_def split: prod.splits)
    next
      case False
      obtain d l m where a: "a = (d, l, m)" by (cases a)
      obtain d' l' m' where b: "b = (d', l', m')" by (cases b)
      from that(2) False a b obtain valid where
        "ensureDependency st (nameOf st x) d = Inr (valid, d')"
        by (auto simp: allPackagesStep_def bindE_Inr)
      then show ?thesis using that(1) a b by (auto dest: ensureDependency_distinct)
    qed
  qed
  then show ?thesis by simp
qed

lemma missing_fold_distinct:
  "distinct (map fst (snd (snd acc))) \<Longrightarrow>
   distinct (map fst (snd (snd (fold (missingStep e p) ns acc))))"
proof (rule fold_invariant [where P = "\<lambda>a. distinct (map fst (snd (snd a)))"])
  show "distinct (map fst (snd (snd (missingStep e p x a))))"
    if "distinct (map fst (snd (snd a)))" for x a
    using that by (cases a) (auto simp: missingStep_def distinct_js_set)
qed

lemma missing_fold_keys:
  assumes "fold (missingStep e p) ns (ms, seen, deps) = (ms', seen', deps')"
  shows "fst ` set deps \<subseteq> fst ` set deps'"
proof -
  from missingStep_props [OF assms]
  have "map fst deps' = map fst deps @ drop (length deps) (map fst deps')" by simp
  then have "set (map fst deps) \<subseteq> set (map fst deps')"
    by (metis set_append Un_upper1)
  then show ?thesis by simp
qed

lemma readImports_files:
  "files st = files st' \<Longrightarrow> readImports e st = readImports e st'"
  by (intro ext) (simp add: readImports_def)

lemma importNames_files:
  "files st = files st' \<Longrightarrow> importNames e st dname = importNames e st' dname"
  using readImports_files [of st st' e] by (simp add: importNames_def)

lemma count_list_distinct: "distinct xs \<Longrightarrow> count_list xs x = (if x \<in> set xs then 1 else 0)"
  by (induction xs) auto

lemma count_list_map_inj:
  "inj f \<Longrightarrow> count_list (map f xs) (f x) = count_list xs x"
  by (induction xs) (auto dest: injD)

lemma count_list_0: "x \<notin> set xs \<Longrightarrow> count_list xs x = 0"
  by (induction xs) auto

lemma pruned_keys:
  "fst ` set (pruned p names deps) = {k \<in> fst ` set deps. \<not> unusedIn p names k}"
  by (auto simp: pruned_def)

text \<open>The dependencies object of the package when line 67 is reached.\<close>

lemma special_case_keys:
  assumes "(if p = ''@jupyterlab/all-packages'' then ensureAllPackages e st1 else Inr ([], st1)) =
      Inr (ms0, st2)"
    and "cache st1 q = Some obj"
  shows "\<exists>obj'. cache st2 q = Some obj' \<and>
      fst ` set (dependencies obj) \<subseteq> fst ` set (dependencies obj') \<and>
      (distinct (map fst (dependencies obj)) \<longrightarrow> distinct (map fst (dependencies obj'))) \<and>
      (p \<noteq> ''@jupyterlab/all-packages'' \<or> q \<noteq> allPackagesPath e \<longrightarrow> obj' = obj)"
proof (cases "p = ''@jupyterlab/all-packages''")
  case False
  with assms show ?thesis by simp
next
  case True
  with assms(1) have run: "ensureAllPackages e st1 = Inr (ms0, st2)" by simp
  show ?thesis
  proof (cases "q = allPackagesPath e")
    case False
    then show ?thesis using ensureAllPackages_props(4) [OF run] assms(2) by simp
  next
    case q: True
    from run show ?thesis
    proof (cases rule: ensureAllPackages_cases)
      case (1 A s1 index deps lines m0 c s2)
      have A: "A = obj" using require_cases [OF 1(1)] assms(2) q by auto
      have s1: "cache s1 = cache st1" using require_cases [OF 1(1)] assms(2) q by auto
      obtain ms1 where ch: "changed m0 (c, s2) = (ms1, s2)" by (simp add: changed_def)
      have "cache st2 = cache s2"
        using writeIndex_props [OF 1(5) [unfolded ch]] by simp
      also have "\<dots> = (cache s1)(allPackagesPath e \<mapsto> A\<lparr>dependencies := deps\<rparr>)"
        using ensurePackageData_frame(1) [OF 1(4)] by simp
      finally have c2: "cache st2 q = Some (obj\<lparr>dependencies := deps\<rparr>)"
        using q A by simp
      have "fst ` set (dependencies obj) \<subseteq> fst ` set deps"
        using allPackages_fold [OF 1(3)] A by simp
      moreover have "distinct (map fst (dependencies obj)) \<longrightarrow> distinct (map fst deps)"
        using allPackages_fold_distinct [OF 1(3)] A by simp
      ultimately show ?thesis using c2 True q by simp
    qed
  qed
qed

lemma canonical_mono:
  assumes "seen \<subseteq>\<^sub>m seen'"
    and "\<forall>k v. seen' k = Some v \<longrightarrow> seen k = Some v \<or> v = getDependency e k"
  shows "canonical e seen' x = canonical e seen x"
proof (cases "seen x")
  case None
  then have "canonical e seen x = getDependency e x" by (simp add: canonical_def resolve_def)
  moreover have "canonical e seen' x = getDependency e x"
  proof (cases "seen' x")
    case None
    then show ?thesis by (simp add: canonical_def resolve_def)
  next
    case (Some v)
    with assms(2) \<open>seen x = None\<close> have "v = getDependency e x" by fastforce
    then show ?thesis using Some by (simp add: canonical_seen)
  qed
  ultimately show ?thesis by simp
next
  case (Some v)
  then have "seen' x = Some v" using assms(1) by (rule map_le_Some [rotated])
  then show ?thesis using Some by (simp add: canonical_seen)
qed

lemma missing_fold_count:
  assumes "fold (missingStep e p) ns (ms, seen, deps) = (ms', seen', deps')"
    and "\<not> listed MISSING p x" "x \<noteq> ''.''" "x \<noteq> ''..''" "canonical e seen x \<noteq> []"
  shows "(js_not (js_get deps x) \<and> x \<in> set ns \<longrightarrow>
      count_list ms' (''Missing dependency: '' @ x) = count_list ms (''Missing dependency: '' @ x) + 1 \<and>
      js_get deps' x = Some (canonical e seen x) \<and> seen' x = Some (canonical e seen x)) \<and>
    (\<not> js_not (js_get deps x) \<or> x \<notin> set ns \<longrightarrow>
      count_list ms' (''Missing dependency: '' @ x) = count_list ms (''Missing dependency: '' @ x) \<and>
      js_get deps' x = js_get deps x)"
  using assms
proof (induction ns arbitrary: ms seen deps)
  case Nil
  then show ?case by simp
next
  case (Cons n ns)
  obtain ms1 seen1 deps1 where s: "missingStep e p n (ms, seen, deps) = (ms1, seen1, deps1)"
    by (cases "missingStep e p n (ms, seen, deps)")
  with Cons.prems(1) have r: "fold (missingStep e p) ns (ms1, seen1, deps1) = (ms', seen', deps')"
    by simp
  have can1: "canonical e seen1 x = canonical e seen x"
    using s by (auto simp: missingStep_def canonical_resolve split: if_splits)
  have c5: "canonical e seen1 x \<noteq> []" using can1 Cons.prems(5) by simp
  note ih = Cons.IH [OF r Cons.prems(2,3,4) c5, unfolded can1]
  have mono: "seen1 \<subseteq>\<^sub>m seen'" using missingStep_props [OF r] by simp
  show ?case
  proof (cases "n = x \<and> js_not (js_get deps x)")
    case True
    then have s1: "ms1 = ms @ [''Missing dependency: '' @ x]"
      "seen1 = snd (resolve e x seen)" "deps1 = js_set deps x (canonical e seen x)"
      using s Cons.prems(2,3,4) by (simp_all add: missingStep_def canonical_def)
    have truthy: "\<not> js_not (js_get deps1 x)"
      using s1(3) Cons.prems(5) by (simp add: js_get_js_set js_not_def)
    have "seen1 x = Some (canonical e seen x)"
      using s1(2) by (simp add: resolve_seen canonical_def)
    then have "seen' x = Some (canonical e seen x)"
      using mono by (rule map_le_Some [rotated])
    then show ?thesis using ih truthy True s1 by (simp add: js_get_js_set)
  next
    case False
    have same: "count_list ms1 (''Missing dependency: '' @ x) =
        count_list ms (''Missing dependency: '' @ x)" "js_get deps1 x = js_get deps x"
      using s False by (auto simp: missingStep_def js_get_js_set split: if_splits)
    show ?thesis
    proof (cases "n = x")
      case True
      with False have "\<not> js_not (js_get deps x)" by simp
      then show ?thesis using ih same by simp
    next
      case False
      then show ?thesis using ih same by auto
    qed
  qed
qed

lemma ensurePackage_sources:
  assumes "ensurePackage e p st = Inr (ms, st')"
    and "js_get (pkgPaths st) p = Some dname" and "cache st dname = Some data"
    and "sourceFiles e dname \<noteq> []"
  obtains ms0 st2 data2 names ms1 seen1 deps1 c where
    "(if p = ''@jupyterlab/all-packages''
      then ensureAllPackages e (verifyDependencies e dname data st)
      else Inr ([], verifyDependencies e dname data st)) = Inr (ms0, st2)"
    "cache st2 dname = Some data2"
    "importNames e st' dname = Inr names"
    "fold (missingStep e p) names (ms0, seenDeps st2, dependencies data2) = (ms1, seen1, deps1)"
    "cache st' dname = Some (data2\<lparr>dependencies := pruned p names deps1\<rparr>)"
    "seenDeps st' = seen1"
    "ms = (ms1 @ map (\<lambda>k. ''Unused dependency: '' @ k)
            (filter (unusedIn p names) (js_keys deps1))) @
          (if c then [''Package data changed''] else [])"
    "fst ` set (dependencies data) \<subseteq> fst ` set (dependencies data2)"
    "distinct (map fst (dependencies data)) \<longrightarrow> distinct (map fst (dependencies data2))"
    "p \<noteq> ''@jupyterlab/all-packages'' \<longrightarrow>
       map fst (dependencies data2) = map fst (dependencies data) \<and>
       files st' = files st \<and>
       seenDeps st \<subseteq>\<^sub>m seenDeps st2 \<and>
       (\<forall>k v. seenDeps st2 k = Some v \<longrightarrow> seenDeps st k = Some v \<or> v = getDependency e k)"
    "\<forall>m\<in>set ms0. sync_message m"
  using assms(1)
proof (cases rule: ensurePackage_cases)
  case (1 dname' data' ms0 st2)
  have eq: "dname' = dname" "data' = data" using 1(1,2) assms(2,3) by simp_all
  note sp = 1(3) [unfolded eq]
  define st1 where "st1 = verifyDependencies e dname data st"
  note vp = verifyDependencies_props [OF st1_def]
  from vp(7) obtain data1 where c1: "cache st1 dname = Some data1"
    and k1: "map fst (dependencies data1) = map fst (dependencies data)"
    by auto
  from special_case_keys [OF sp [folded st1_def] c1] obtain data2 where
    c2: "cache st2 dname = Some data2"
    and k2: "fst ` set (dependencies data1) \<subseteq> fst ` set (dependencies data2)"
      "distinct (map fst (dependencies data1)) \<longrightarrow> distinct (map fst (dependencies data2))"
      "p \<noteq> ''@jupyterlab/all-packages'' \<or> dname \<noteq> allPackagesPath e \<longrightarrow> data2 = data1"
    by blast
  have m0: "\<forall>m\<in>set ms0. sync_message m"
  proof (cases "p = ''@jupyterlab/all-packages''")
    case True
    with sp have "ensureAllPackages e (verifyDependencies e dname data st) = Inr (ms0, st2)"
      by simp
    from ensureAllPackages_messages [OF this] show ?thesis
      by (simp add: sync_message_def)
  next
    case False
    with sp show ?thesis by simp
  qed
  have keys: "fst ` set (dependencies data) \<subseteq> fst ` set (dependencies data2)"
  proof -
    have "fst ` set (dependencies data) = fst ` set (dependencies data1)"
      using k1 by (metis list.set_map)
    then show ?thesis using k2(1) by simp
  qed
  have dist: "distinct (map fst (dependencies data)) \<longrightarrow> distinct (map fst (dependencies data2))"
    using k1 k2(2) by simp
  have plain: "p \<noteq> ''@jupyterlab/all-packages'' \<longrightarrow>
       map fst (dependencies data2) = map fst (dependencies data) \<and>
       files st2 = files st \<and>
       seenDeps st \<subseteq>\<^sub>m seenDeps st2 \<and>
       (\<forall>k v. seenDeps st2 k = Some v \<longrightarrow> seenDeps st k = Some v \<or> v = getDependency e k)"
  proof
    assume p: "p \<noteq> ''@jupyterlab/all-packages''"
    with sp have "st2 = st1" by (simp add: st1_def)
    then show "map fst (dependencies data2) = map fst (dependencies data) \<and>
       files st2 = files st \<and>
       seenDeps st \<subseteq>\<^sub>m seenDeps st2 \<and>
       (\<forall>k v. seenDeps st2 k = Some v \<longrightarrow> seenDeps st k = Some v \<or> v = getDependency e k)"
      using k1 k2(3) p vp(2,5,6) by simp
  qed
  from 1(4) [unfolded eq] show ?thesis
  proof (cases rule: checkImports_cases)
    case (none d c)
    then show ?thesis using assms(4) by simp
  next
    case (some d names ms1 seen1 deps1 c)
    have d: "d = data2" using some(1) c2 by simp
    note pf = ensurePackageData_frame [OF some(5)]
    have f: "files st' = files st2" using pf by simp
    have n: "importNames e st' dname = Inr names"
      using some(3) importNames_files [OF f, of e dname] by simp
    have c': "cache st' dname = Some (data2\<lparr>dependencies := pruned p names deps1\<rparr>)"
      using pf d by simp
    have s': "seenDeps st' = seen1" using pf by simp
    have m: "ms = (ms1 @ map (\<lambda>k. ''Unused dependency: '' @ k)
            (filter (unusedIn p names) (js_keys deps1))) @
          (if c then [''Package data changed''] else [])"
      using some(6) by (simp add: Let_def)
    have plain': "p \<noteq> ''@jupyterlab/all-packages'' \<longrightarrow>
       map fst (dependencies data2) = map fst (dependencies data) \<and>
       files st' = files st \<and>
       seenDeps st \<subseteq>\<^sub>m seenDeps st2 \<and>
       (\<forall>k v. seenDeps st2 k = Some v \<longrightarrow> seenDeps st k = Some v \<or> v = getDependency e k)"
      using plain f by simp
    show ?thesis
      by (rule that [OF sp c2 n some(4) [unfolded d] c' s' m keys dist plain' m0])
  qed
qed

lemma count_unused_missing:
  "count_list (map (\<lambda>k. ''Unused dependency: '' @ k) ks) (''Missing dependency: '' @ x) = 0"
  by (induction ks) auto

lemma count_changed_missing:
  "count_list (if c then [''Package data changed''] else []) (''Missing dependency: '' @ x) = 0"
  by simp

lemma ensurePackage_no_sources:
  assumes "ensurePackage e p st = Inr (ms, st')"
    and "js_get (pkgPaths st) p = Some dname" and "cache st dname = Some data"
    and "sourceFiles e dname = []"
  obtains ms0 st2 data2 c where
    "(if p = ''@jupyterlab/all-packages''
       then ensureAllPackages e (verifyDependencies e dname data st)
       else Inr ([], verifyDependencies e dname data st)) = Inr (ms0, st2)"
    "cache st2 dname = Some data2"
    "ensurePackageData e data2 dname st2 = Inr (c, st')"
    "ms = (if c then ms0 @ [''Package data changed''] else ms0)"
  using assms(1)
proof (cases rule: ensurePackage_cases)
  case (1 dname' data' ms0 st2)
  have eq: "dname' = dname" "data' = data" using 1(1,2) assms(2,3) by simp_all
  from 1(4) [unfolded eq] show ?thesis
  proof (cases rule: checkImports_cases)
    case (some data2 names ms1 seen1 deps1 c)
    then show ?thesis using assms(4) by simp
  next
    case (none data2 c)
    show ?thesis by (rule that [OF 1(3) [unfolded eq] none(1,3,4)])
  qed
qed

lemma count_unused_map:
  "count_list (map (\<lambda>k. ''Unused dependency: '' @ k) ks) (''Unused dependency: '' @ d) =
     count_list ks d"
  by (induction ks) auto

lemma count_missing_unused:
  assumes "fold (missingStep e p) ns (ms, seen, deps) = (ms', seen', deps')"
  shows "count_list ms' (''Unused dependency: '' @ d) = count_list ms (''Unused dependency: '' @ d)"
proof -
  from missingStep_props [OF assms] obtain xs where xs: "ms' = ms @ xs"
    and xsP: "\<forall>m\<in>set xs. \<exists>n\<in>set ns. m = ''Missing dependency: '' @ n \<and> n \<noteq> ''.'' \<and>
        n \<noteq> ''..'' \<and> \<not> listed MISSING p n"
    by blast
  have "''Unused dependency: '' @ d \<notin> set xs"
  proof
    assume "''Unused dependency: '' @ d \<in> set xs"
    with xsP obtain n where "''Unused dependency: '' @ d = ''Missing dependency: '' @ n" by blast
    then show False by simp
  qed
  then have "count_list xs (''Unused dependency: '' @ d) = 0" by (rule count_list_0)
  then show ?thesis by (simp add: xs)
qed

lemma count_sync_unused:
  assumes "\<forall>m\<in>set ms0. sync_message m"
  shows "count_list ms0 (''Unused dependency: '' @ d) = 0"
proof (rule count_list_0, rule notI)
  assume "''Unused dependency: '' @ d \<in> set ms0"
  with assms have "sync_message (''Unused dependency: '' @ d)" by blast
  then show False by (simp add: sync_message_def)
qed

lemma count_changed_unused:
  "count_list (if c then [''Package data changed''] else []) (''Unused dependency: '' @ d) = 0"
  by simp

subsection \<open>Copying entries (line 233 to 235)\<close>

lemma copyEntries_keys: "fst ` set (copyEntries es obj) = fst ` set obj \<union> fst ` set es"
  unfolding copyEntries_def
  by (induction es arbitrary: obj) (auto simp: js_set_keys_set)

lemma copyEntries_other: "k \<notin> fst ` set es \<Longrightarrow> js_get (copyEntries es obj) k = js_get obj k"
  unfolding copyEntries_def
  by (induction es arbitrary: obj) (auto simp: js_get_js_set)

lemma copyEntries_from:
  "k \<in> fst ` set es \<Longrightarrow> \<exists>v. js_get (copyEntries es obj) k = Some v \<and> (k, v) \<in> set es"
  unfolding copyEntries_def
proof (induction es arbitrary: obj)
  case Nil
  then show ?case by simp
next
  case (Cons kv es)
  show ?case
  proof (cases "k \<in> fst ` set es")
    case True
    from Cons.IH [OF True, of "js_set obj (fst kv) (snd kv)"] show ?thesis by auto
  next
    case False
    with Cons.prems have k: "k = fst kv" by auto
    have "js_get (fold (\<lambda>kv obj. js_set obj (fst kv) (snd kv)) es (js_set obj (fst kv) (snd kv))) k =
        js_get (js_set obj (fst kv) (snd kv)) k"
      using copyEntries_other [OF False] by (simp add: copyEntries_def)
    then show ?thesis using k by (cases kv) (simp add: js_get_js_set)
  qed
qed

subsection \<open>\<open>ensureTop\<close>\<close>

lemma hoist_cases:
  assumes "hoist e q s = Inr s'"
  obtains data root where "pkgData s (nameOf s q) = Some data" "cache s (basePath e) = Some root"
    "s' = s\<lparr>cache := (cache s)(basePath e \<mapsto>
       root\<lparr>devDependencies := copyEntries (js_entries (devDependencies data)) (devDependencies root)\<rparr>)\<rparr>"
  using assms by (auto simp: hoist_def copyEntries_def split: option.splits)

lemma pkgData_other:
  assumes "pkgPaths s' = pkgPaths s" "pkgNames s' = pkgNames s"
    and "\<forall>p. p \<noteq> basePath e \<longrightarrow> cache s' p = cache s p" and "\<not> aliased e s q"
  shows "pkgData s' (nameOf s' q) = pkgData s (nameOf s q)"
  using assms by (auto simp: pkgData_def nameOf_def aliased_def split: option.splits)

lemma pkgData_aliased:
  assumes "pkgPaths s' = pkgPaths s" "pkgNames s' = pkgNames s" and "aliased e s q"
  shows "pkgData s' (nameOf s' q) = cache s' (basePath e)"
  using assms by (auto simp: pkgData_def nameOf_def aliased_def split: option.splits)

lemma hoist_loop:
  assumes "foldE (hoist e) qs s = Inr s'" and "cache s (basePath e) = Some root"
  shows "(pkgPaths s' = pkgPaths s \<and> pkgNames s' = pkgNames s \<and> manifests s' = manifests s \<and>
      files s' = files s \<and> seenDeps s' = seenDeps s \<and>
      (\<forall>p. p \<noteq> basePath e \<longrightarrow> cache s' p = cache s p))
    \<and> (\<exists>root'. cache s' (basePath e) = Some root' \<and> name root' = name root \<and>
          version root' = version root \<and> dependencies root' = dependencies root \<and>
          fst ` set (devDependencies root) \<subseteq> fst ` set (devDependencies root') \<and>
          (\<forall>q\<in>set qs. \<forall>data. pkgData s' (nameOf s' q) = Some data \<longrightarrow>
             fst ` set (devDependencies data) \<subseteq> fst ` set (devDependencies root')) \<and>
          ((\<forall>q\<in>set qs. \<not> aliased e s q) \<longrightarrow>
             (\<forall>q\<in>set qs. \<forall>data d. pkgData s (nameOf s q) = Some data \<and>
                d \<in> fst ` set (devDependencies data) \<longrightarrow>
                (\<exists>v. js_get (devDependencies root') d = Some v \<and>
                   (\<exists>q'\<in>set qs. \<exists>data'. pkgData s (nameOf s q') = Some data' \<and>
                      (d, v) \<in> set (devDependencies data'))))))"
  using assms
proof (induction qs arbitrary: s' rule: rev_induct)
  case Nil
  then show ?case by simp
next
  case (snoc q0 qs)
  from snoc.prems(1) obtain s1 where r: "foldE (hoist e) qs s = Inr s1"
    and h: "hoist e q0 s1 = Inr s'"
    by (auto simp: foldE_append bindE_Inr)
  note ih = snoc.IH [OF r snoc.prems(2)]
  note fr = ih [THEN conjunct1]
  from ih [THEN conjunct2] obtain root1 where R:
    "cache s1 (basePath e) = Some root1 \<and> name root1 = name root \<and>
          version root1 = version root \<and> dependencies root1 = dependencies root \<and>
          fst ` set (devDependencies root) \<subseteq> fst ` set (devDependencies root1) \<and>
          (\<forall>q\<in>set qs. \<forall>data. pkgData s1 (nameOf s1 q) = Some data \<longrightarrow>
             fst ` set (devDependencies data) \<subseteq> fst ` set (devDependencies root1)) \<and>
          ((\<forall>q\<in>set qs. \<not> aliased e s q) \<longrightarrow>
             (\<forall>q\<in>set qs. \<forall>data d. pkgData s (nameOf s q) = Some data \<and>
                d \<in> fst ` set (devDependencies data) \<longrightarrow>
                (\<exists>v. js_get (devDependencies root1) d = Some v \<and>
                   (\<exists>q'\<in>set qs. \<exists>data'. pkgData s (nameOf s q') = Some data' \<and>
                      (d, v) \<in> set (devDependencies data')))))" ..
  note c1 = R [THEN conjunct1]
  note nv1 = R [THEN conjunct2, THEN conjunct1] R [THEN conjunct2, THEN conjunct2, THEN conjunct1]
    R [THEN conjunct2, THEN conjunct2, THEN conjunct2, THEN conjunct1]
  note k1 = R [THEN conjunct2, THEN conjunct2, THEN conjunct2, THEN conjunct2, THEN conjunct1]
  note in1 = R [THEN conjunct2, THEN conjunct2, THEN conjunct2, THEN conjunct2, THEN conjunct2,
    THEN conjunct1]
  note inv1 = R [THEN conjunct2, THEN conjunct2, THEN conjunct2, THEN conjunct2, THEN conjunct2,
    THEN conjunct2]
  from h obtain data0 r1 where d0: "pkgData s1 (nameOf s1 q0) = Some data0"
    and r1: "cache s1 (basePath e) = Some r1"
    and s': "s' = s1\<lparr>cache := (cache s1)(basePath e \<mapsto>
       r1\<lparr>devDependencies := copyEntries (js_entries (devDependencies data0)) (devDependencies r1)\<rparr>)\<rparr>"
    by (rule hoist_cases)
  have r1eq: "r1 = root1" using r1 c1 by simp
  define root' where "root' = root1\<lparr>devDependencies :=
    copyEntries (js_entries (devDependencies data0)) (devDependencies root1)\<rparr>"
  have s'': "s' = s1\<lparr>cache := (cache s1)(basePath e \<mapsto> root')\<rparr>"
    using s' r1eq by (simp add: root'_def)
  have dk: "fst ` set (devDependencies root') =
      fst ` set (devDependencies root1) \<union> fst ` set (devDependencies data0)"
    by (simp add: root'_def copyEntries_keys set_js_entries)
  have fr1: "pkgPaths s' = pkgPaths s1" "pkgNames s' = pkgNames s1"
    "\<forall>p. p \<noteq> basePath e \<longrightarrow> cache s' p = cache s1 p"
    using s'' by simp_all
  have frame: "pkgPaths s' = pkgPaths s \<and> pkgNames s' = pkgNames s \<and> manifests s' = manifests s \<and>
      files s' = files s \<and> seenDeps s' = seenDeps s \<and>
      (\<forall>p. p \<noteq> basePath e \<longrightarrow> cache s' p = cache s p)"
    using fr s'' by simp
  have al: "aliased e s1 q = aliased e s q" for q
    using fr by (simp add: aliased_def nameOf_def)
  have inn: "fst ` set (devDependencies data) \<subseteq> fst ` set (devDependencies root')"
    if q: "q \<in> set (qs @ [q0])" and d: "pkgData s' (nameOf s' q) = Some data" for q data
  proof (cases "aliased e s1 q")
    case True
    from pkgData_aliased [OF fr1(1,2) True] d have "data = root'" using s'' by simp
    then show ?thesis by simp
  next
    case False
    from pkgData_other [OF fr1 False] d have d1: "pkgData s1 (nameOf s1 q) = Some data" by simp
    show ?thesis
    proof (cases "q = q0")
      case True
      with d1 d0 have "data = data0" by simp
      then show ?thesis using dk by simp
    next
      case False
      with q have "q \<in> set qs" by simp
      with in1 d1 have "fst ` set (devDependencies data) \<subseteq> fst ` set (devDependencies root1)"
        by blast
      then show ?thesis using dk by blast
    qed
  qed
  have inv: "\<exists>v. js_get (devDependencies root') d = Some v \<and>
        (\<exists>q'\<in>set (qs @ [q0]). \<exists>data'. pkgData s (nameOf s q') = Some data' \<and>
           (d, v) \<in> set (devDependencies data'))"
    if na: "\<forall>q\<in>set (qs @ [q0]). \<not> aliased e s q" and q: "q \<in> set (qs @ [q0])"
      and d: "pkgData s (nameOf s q) = Some data" "d \<in> fst ` set (devDependencies data)"
    for q data d
  proof -
    have "\<not> aliased e s q0" using na by simp
    then have d0': "pkgData s (nameOf s q0) = Some data0"
      using pkgData_other [of s1 s e q0] fr d0 by simp
    show ?thesis
    proof (cases "d \<in> fst ` set (devDependencies data0)")
      case True
      then have "d \<in> fst ` set (js_entries (devDependencies data0))"
        by (simp add: set_js_entries)
      from copyEntries_from [OF this, of "devDependencies root1"]
      obtain v where "js_get (devDependencies root') d = Some v"
        "(d, v) \<in> set (devDependencies data0)"
        by (auto simp: root'_def set_js_entries)
      then show ?thesis using d0' by auto
    next
      case False
      with d d0' have "q \<noteq> q0" by auto
      with q have qs: "q \<in> set qs" by simp
      have "\<forall>q\<in>set qs. \<not> aliased e s q" using na by simp
      with inv1 qs d obtain v where v: "js_get (devDependencies root1) d = Some v"
        "\<exists>q'\<in>set qs. \<exists>data'. pkgData s (nameOf s q') = Some data' \<and>
           (d, v) \<in> set (devDependencies data')"
        by blast
      have "d \<notin> fst ` set (js_entries (devDependencies data0))"
        using False by (simp add: set_js_entries)
      from copyEntries_other [OF this, of "devDependencies root1"] v(1)
      have "js_get (devDependencies root') d = Some v" by (simp add: root'_def)
      then show ?thesis using v(2) by auto
    qed
  qed
  have rootp: "cache s' (basePath e) = Some root' \<and> name root' = name root \<and>
          version root' = version root \<and> dependencies root' = dependencies root \<and>
          fst ` set (devDependencies root) \<subseteq> fst ` set (devDependencies root')"
    using s'' nv1 k1 dk by (auto simp: root'_def)
  show ?case
  proof (rule conjI [OF frame], rule exI [of _ root'], intro conjI)
    show "cache s' (basePath e) = Some root'" "name root' = name root"
      "version root' = version root" "dependencies root' = dependencies root"
      "fst ` set (devDependencies root) \<subseteq> fst ` set (devDependencies root')"
      using rootp by simp_all
    show "\<forall>q\<in>set (qs @ [q0]). \<forall>data. pkgData s' (nameOf s' q) = Some data \<longrightarrow>
             fst ` set (devDependencies data) \<subseteq> fst ` set (devDependencies root')"
      using inn by blast
    show "(\<forall>q\<in>set (qs @ [q0]). \<not> aliased e s q) \<longrightarrow>
             (\<forall>q\<in>set (qs @ [q0]). \<forall>data d. pkgData s (nameOf s q) = Some data \<and>
                d \<in> fst ` set (devDependencies data) \<longrightarrow>
                (\<exists>v. js_get (devDependencies root') d = Some v \<and>
                   (\<exists>q'\<in>set (qs @ [q0]). \<exists>data'. pkgData s (nameOf s q') = Some data' \<and>
                      (d, v) \<in> set (devDependencies data'))))"
      using inv by blast
  qed
qed

lemma ensureTop_cases:
  assumes "ensureTop e st = Inr (t, st')"
  obtains root st1 st2 root' c where
    "require (basePath e) st = Inr (root, st1)"
    "foldE (hoist e) (localPackages e) st1 = Inr st2"
    "cache st2 (basePath e) = Some root'"
    "ensurePackageData e root' (basePath e) st2 = Inr (c, st')"
    "t = (if c then Some ''updated'' else None)"
proof -
  from assms have "\<exists>r. require (basePath e) st = Inr r \<and>
      (case r of (localData, st1) \<Rightarrow>
        bindE (foldE (hoist e) (localPackages e) st1) (\<lambda>st2.
         (case cache st2 (basePath e) of
            None \<Rightarrow> Inl TypeError
          | Some localData' \<Rightarrow>
              bindE (ensurePackageData e localData' (basePath e) st2) (\<lambda>(c, st3).
                Inr (if c then Some ''updated'' else None, st3))))) = Inr (t, st')"
    by (simp add: ensureTop_def bindE_Inr)
  then obtain r where r: "require (basePath e) st = Inr r \<and>
      (case r of (localData, st1) \<Rightarrow>
        bindE (foldE (hoist e) (localPackages e) st1) (\<lambda>st2.
         (case cache st2 (basePath e) of
            None \<Rightarrow> Inl TypeError
          | Some localData' \<Rightarrow>
              bindE (ensurePackageData e localData' (basePath e) st2) (\<lambda>(c, st3).
                Inr (if c then Some ''updated'' else None, st3))))) = Inr (t, st')" ..
  obtain root st1 where r': "r = (root, st1)" by (cases r)
  from r [THEN conjunct2] have "\<exists>st2. foldE (hoist e) (localPackages e) st1 = Inr st2 \<and>
         (case cache st2 (basePath e) of
            None \<Rightarrow> Inl TypeError
          | Some localData' \<Rightarrow>
              bindE (ensurePackageData e localData' (basePath e) st2) (\<lambda>(c, st3).
                Inr (if c then Some ''updated'' else None, st3))) = Inr (t, st')"
    by (simp add: r' bindE_Inr)
  then obtain st2 where s2: "foldE (hoist e) (localPackages e) st1 = Inr st2 \<and>
         (case cache st2 (basePath e) of
            None \<Rightarrow> Inl TypeError
          | Some localData' \<Rightarrow>
              bindE (ensurePackageData e localData' (basePath e) st2) (\<lambda>(c, st3).
                Inr (if c then Some ''updated'' else None, st3))) = Inr (t, st')" ..
  from s2 [THEN conjunct2] obtain root' where c2: "cache st2 (basePath e) = Some root'"
    by (cases "cache st2 (basePath e)") simp_all
  from s2 [THEN conjunct2] have "\<exists>w. ensurePackageData e root' (basePath e) st2 = Inr w \<and>
      (case w of (c, st3) \<Rightarrow> Inr (if c then Some ''updated'' else None, st3)) = Inr (t, st')"
    by (simp add: c2 bindE_Inr)
  then obtain w where w: "ensurePackageData e root' (basePath e) st2 = Inr w \<and>
      (case w of (c, st3) \<Rightarrow> Inr (if c then Some ''updated'' else None, st3)) = Inr (t, st')" ..
  obtain c st3 where w': "w = (c, st3)" by (cases w)
  from w [THEN conjunct2] have "t = (if c then Some ''updated'' else None)" "st3 = st'"
    by (simp_all add: w')
  then show ?thesis
    using that [OF r [THEN conjunct1, unfolded r'] s2 [THEN conjunct1] c2] w [THEN conjunct1] w'
    by simp
qed

lemma ensureTop_frame:
  assumes "ensureTop e st = Inr (t, st')"
  shows "pkgPaths st' = pkgPaths st \<and> pkgNames st' = pkgNames st \<and> files st' = files st \<and>
      seenDeps st' = seenDeps st \<and>
      (\<forall>p. p \<noteq> basePath e \<longrightarrow> cache st' p = cache st p \<and> manifests st' p = manifests st p) \<and>
      (t = None \<longrightarrow> manifests st' = manifests st) \<and>
      (\<forall>obj. cache st (basePath e) = Some obj \<longrightarrow>
         (\<exists>obj'. cache st' (basePath e) = Some obj' \<and> name obj' = name obj \<and>
            version obj' = version obj))"
  using assms
proof (cases rule: ensureTop_cases)
  case (1 root st1 st2 root' c)
  note rq = require_cases [OF 1(1)]
  have c1: "cache st1 (basePath e) = Some root" using rq by simp
  have st1: "st1 = st\<lparr>cache := (cache st)(basePath e \<mapsto> root)\<rparr>"
    using rq by (auto simp: map_upd_triv)
  note hl = hoist_loop [OF 1(2) c1]
  note fr = hl [THEN conjunct1]
  from hl [THEN conjunct2] 1(3) have nv: "name root' = name root" "version root' = version root"
    by auto
  note pf = ensurePackageData_frame [OF 1(4)]
  have a: "pkgPaths st' = pkgPaths st" "pkgNames st' = pkgNames st" "files st' = files st"
    "seenDeps st' = seenDeps st"
    using pf fr st1 by simp_all
  have b: "\<forall>p. p \<noteq> basePath e \<longrightarrow> cache st' p = cache st p \<and> manifests st' p = manifests st p"
  proof (intro allI impI conjI)
    fix p assume p: "p \<noteq> basePath e"
    show "cache st' p = cache st p" using pf(1) fr st1 p by simp
    have "manifests st' p = manifests st2 p" using ensurePackageData_other [OF 1(4) p] .
    then show "manifests st' p = manifests st p" using fr st1 by simp
  qed
  have c: "t = None \<longrightarrow> manifests st' = manifests st"
  proof
    assume "t = None"
    with 1(5) have "\<not> c" by (cases c) simp_all
    then have "st' = st2" using pf(6) by simp
    then show "manifests st' = manifests st" using fr st1 by simp
  qed
  have d: "\<forall>obj. cache st (basePath e) = Some obj \<longrightarrow>
         (\<exists>obj'. cache st' (basePath e) = Some obj' \<and> name obj' = name obj \<and>
            version obj' = version obj)"
  proof (intro allI impI)
    fix obj assume "cache st (basePath e) = Some obj"
    then have "root = obj" using rq by auto
    then show "\<exists>obj'. cache st' (basePath e) = Some obj' \<and> name obj' = name obj \<and>
            version obj' = version obj"
      using pf(1) 1(3) nv by simp
  qed
  show ?thesis using a b c d by simp
qed

lemma ensureTop_registered:
  assumes "ensureTop e st = Inr (t, st')" and "registered st"
  shows "registered st'"
  unfolding registered_def
proof (intro allI impI)
  fix n d assume "js_get (pkgPaths st') n = Some d"
  then have nd: "js_get (pkgPaths st) n = Some d" using ensureTop_frame [OF assms(1)] by simp
  with assms(2) obtain obj where obj: "cache st d = Some obj" "name obj = n"
    unfolding registered_def by blast
  show "\<exists>obj. cache st' d = Some obj \<and> name obj = n"
  proof (cases "d = basePath e")
    case True
    with obj ensureTop_frame [OF assms(1)] show ?thesis by auto
  next
    case False
    with obj ensureTop_frame [OF assms(1)] show ?thesis by simp
  qed
qed

lemma loadPackage_cases:
  "loadPackage d st = st \<or>
   (\<exists>p. (cache st d = Some p \<or> (cache st d = None \<and> (\<exists>f. manifests st d = Some f \<and> p = content f))) \<and>
      loadPackage d st = st\<lparr>cache := (cache st)(d \<mapsto> p),
        pkgPaths := js_set (pkgPaths st) (name p) d,
        pkgNames := (pkgNames st)(d \<mapsto> name p)\<rparr>)"
proof (cases "require d st")
  case (Inl err)
  then show ?thesis by (simp add: loadPackage_def)
next
  case (Inr r)
  obtain p st1 where r: "r = (p, st1)" by (cases r)
  note rq = require_cases [OF Inr [unfolded r]]
  have l: "loadPackage d st = st1\<lparr>pkgPaths := js_set (pkgPaths st1) (name p) d,
      pkgNames := (pkgNames st1)(d \<mapsto> name p)\<rparr>"
    using Inr r by (simp add: loadPackage_def)
  from rq [THEN conjunct2] show ?thesis
  proof
    assume a: "cache st d = Some p \<and> st1 = st"
    then have "(cache st)(d \<mapsto> p) = cache st" by (simp add: map_upd_triv)
    then have "loadPackage d st = st\<lparr>cache := (cache st)(d \<mapsto> p),
        pkgPaths := js_set (pkgPaths st) (name p) d,
        pkgNames := (pkgNames st)(d \<mapsto> name p)\<rparr>"
      using l a by simp
    with a show ?thesis by blast
  next
    assume a: "cache st d = None \<and> (\<exists>f. manifests st d = Some f \<and> p = content f) \<and>
      st1 = st\<lparr>cache := (cache st)(d \<mapsto> p)\<rparr>"
    then have "loadPackage d st = st\<lparr>cache := (cache st)(d \<mapsto> p),
        pkgPaths := js_set (pkgPaths st) (name p) d,
        pkgNames := (pkgNames st)(d \<mapsto> name p)\<rparr>"
      using l by simp
    with a show ?thesis by blast
  qed
qed

lemma loadPackage_registered:
  assumes "registered st"
  shows "registered (loadPackage d st)"
  using loadPackage_cases [of d st]
proof
  assume "loadPackage d st = st"
  with assms show ?thesis by simp
next
  assume "\<exists>p. (cache st d = Some p \<or> (cache st d = None \<and> (\<exists>f. manifests st d = Some f \<and> p = content f))) \<and>
      loadPackage d st = st\<lparr>cache := (cache st)(d \<mapsto> p),
        pkgPaths := js_set (pkgPaths st) (name p) d,
        pkgNames := (pkgNames st)(d \<mapsto> name p)\<rparr>"
  then obtain p where p: "(cache st d = Some p \<or> (cache st d = None \<and> (\<exists>f. manifests st d = Some f \<and> p = content f))) \<and>
      loadPackage d st = st\<lparr>cache := (cache st)(d \<mapsto> p),
        pkgPaths := js_set (pkgPaths st) (name p) d,
        pkgNames := (pkgNames st)(d \<mapsto> name p)\<rparr>" ..
  note c = p [THEN conjunct1]
  note l = p [THEN conjunct2]
  show ?thesis
    unfolding registered_def
  proof (intro allI impI)
    fix n d' assume "js_get (pkgPaths (loadPackage d st)) n = Some d'"
    then have g: "(if n = name p then Some d else js_get (pkgPaths st) n) = Some d'"
      by (simp add: l js_get_js_set)
    show "\<exists>obj. cache (loadPackage d st) d' = Some obj \<and> name obj = n"
    proof (cases "n = name p")
      case True
      with g have "d' = d" by simp
      then show ?thesis using True by (simp add: l)
    next
      case False
      with g have "js_get (pkgPaths st) n = Some d'" by simp
      with assms obtain obj where obj: "cache st d' = Some obj" "name obj = n"
        unfolding registered_def by blast
      have "d' \<noteq> d" using c obj False by auto
      then show ?thesis using obj by (simp add: l)
    qed
  qed
qed

lemma loadPackage_frame:
  "manifests (loadPackage d st) = manifests st \<and> files (loadPackage d st) = files st \<and>
   seenDeps (loadPackage d st) = seenDeps st \<and>
   (distinct (map fst (pkgPaths st)) \<longrightarrow> distinct (map fst (pkgPaths (loadPackage d st))))"
  using loadPackage_cases [of d st]
proof
  assume "loadPackage d st = st"
  then show ?thesis by simp
next
  assume "\<exists>p. (cache st d = Some p \<or> (cache st d = None \<and> (\<exists>f. manifests st d = Some f \<and> p = content f))) \<and>
      loadPackage d st = st\<lparr>cache := (cache st)(d \<mapsto> p),
        pkgPaths := js_set (pkgPaths st) (name p) d,
        pkgNames := (pkgNames st)(d \<mapsto> name p)\<rparr>"
  then obtain p where p: "(cache st d = Some p \<or> (cache st d = None \<and> (\<exists>f. manifests st d = Some f \<and> p = content f))) \<and>
      loadPackage d st = st\<lparr>cache := (cache st)(d \<mapsto> p),
        pkgPaths := js_set (pkgPaths st) (name p) d,
        pkgNames := (pkgNames st)(d \<mapsto> name p)\<rparr>" ..
  show ?thesis by (simp add: p [THEN conjunct2] distinct_js_set)
qed

lemma load_props:
  assumes "registered st" and "distinct (map fst (pkgPaths st))"
  shows "registered (fold loadPackage ds st) \<and> distinct (map fst (pkgPaths (fold loadPackage ds st))) \<and>
    manifests (fold loadPackage ds st) = manifests st \<and> files (fold loadPackage ds st) = files st \<and>
    seenDeps (fold loadPackage ds st) = seenDeps st"
proof (rule fold_invariant [where P = "\<lambda>s. registered s \<and> distinct (map fst (pkgPaths s)) \<and>
    manifests s = manifests st \<and> files s = files st \<and> seenDeps s = seenDeps st"])
  show "registered st \<and> distinct (map fst (pkgPaths st)) \<and>
    manifests st = manifests st \<and> files st = files st \<and> seenDeps st = seenDeps st"
    using assms by simp
next
  fix x a
  assume a: "registered a \<and> distinct (map fst (pkgPaths a)) \<and>
    manifests a = manifests st \<and> files a = files st \<and> seenDeps a = seenDeps st"
  note f = loadPackage_frame [of x a]
  show "registered (loadPackage x a) \<and> distinct (map fst (pkgPaths (loadPackage x a))) \<and>
    manifests (loadPackage x a) = manifests st \<and> files (loadPackage x a) = files st \<and>
    seenDeps (loadPackage x a) = seenDeps st"
    using loadPackage_registered [OF a [THEN conjunct1]] f a by simp
qed

lemma fresh_props:
  "registered (fresh st)" "distinct (map fst (pkgPaths (fresh st)))" "seenDeps (fresh st) = Map.empty"
  "manifests (fresh st) = manifests st" "files (fresh st) = files st"
  by (simp_all add: fresh_def registered_def js_get_def)

lemma ensureIntegrity_cases:
  assumes "ensureIntegrity e st = Inr (report, st')"
  obtains t st1 where "ensureTop e (fold loadPackage (lernaPackages e) st) = Inr (t, st1)"
    "foldE (validate e) (js_keys (pkgPaths st1))
       (case t of None \<Rightarrow> [] | Some m \<Rightarrow> js_set [] ''top'' (Top m), st1) = Inr (report, st')"
proof -
  from assms have "\<exists>x. ensureTop e (fold loadPackage (lernaPackages e) st) = Inr x \<and>
      (case x of (topMessage, st1) \<Rightarrow>
       foldE (validate e) (js_keys (pkgPaths st1))
         (case topMessage of None \<Rightarrow> [] | Some m \<Rightarrow> js_set [] ''top'' (Top m), st1)) = Inr (report, st')"
    by (simp add: ensureIntegrity_def bindE_Inr)
  then obtain x where x: "ensureTop e (fold loadPackage (lernaPackages e) st) = Inr x \<and>
      (case x of (topMessage, st1) \<Rightarrow>
       foldE (validate e) (js_keys (pkgPaths st1))
         (case topMessage of None \<Rightarrow> [] | Some m \<Rightarrow> js_set [] ''top'' (Top m), st1)) = Inr (report, st')" ..
  obtain t st1 where x': "x = (t, st1)" by (cases x)
  show ?thesis
    using that [of t st1] x by (simp add: x')
qed




lemma loadPackage_coherent:
  assumes "coherent st"
  shows "loadPackage d st =
     (case manifests st d of
        None \<Rightarrow> st
      | Some f \<Rightarrow> st\<lparr>cache := (cache st)(d \<mapsto> content f),
          pkgPaths := js_set (pkgPaths st) (name (content f)) d,
          pkgNames := (pkgNames st)(d \<mapsto> name (content f))\<rparr>)"
proof (cases "cache st d")
  case None
  then show ?thesis
    by (simp add: loadPackage_def require_def split: option.splits)
next
  case (Some p)
  with assms obtain f where f: "manifests st d = Some f" "content f = p"
    unfolding coherent_def by blast
  have "(cache st)(d \<mapsto> p) = cache st" using Some by (simp add: map_upd_triv)
  then have "st\<lparr>cache := (cache st)(d \<mapsto> p)\<rparr> = st" by simp
  then have "st\<lparr>cache := (cache st)(d \<mapsto> p),
          pkgPaths := js_set (pkgPaths st) (name p) d,
          pkgNames := (pkgNames st)(d \<mapsto> name p)\<rparr> =
     st\<lparr>pkgPaths := js_set (pkgPaths st) (name p) d,
          pkgNames := (pkgNames st)(d \<mapsto> name p)\<rparr>"
    by simp
  then show ?thesis
    using Some f by (simp add: loadPackage_def require_def)
qed

lemma loadPackage_keeps_coherent:
  assumes "coherent st"
  shows "coherent (loadPackage d st) \<and> manifests (loadPackage d st) = manifests st"
proof (cases "manifests st d")
  case None
  then show ?thesis using assms by (simp add: loadPackage_coherent [OF assms])
next
  case (Some f)
  then show ?thesis
    using assms by (simp add: loadPackage_coherent [OF assms] coherent_def)
qed

lemma loadedNames_manifests:
  "manifests st' = manifests st \<Longrightarrow> loadedNames st' paths = loadedNames st paths"
  by (simp add: loadedNames_def)

lemma firsts_step:
  "(if k \<in> set ks then ks else ks @ [k]) @
     filter (\<lambda>x. x \<notin> set (if k \<in> set ks then ks else ks @ [k])) F =
   ks @ filter (\<lambda>x. x \<notin> set ks) (k # removeAll k F)"
proof (cases "k \<in> set ks")
  case True
  have "filter (\<lambda>x. x \<notin> set ks) (removeAll k F) = filter (\<lambda>x. x \<notin> set ks) F"
    using True by (induction F) auto
  then show ?thesis using True by simp
next
  case False
  have "filter (\<lambda>x. x \<notin> set ks) (removeAll k F) = filter (\<lambda>x. x \<noteq> k \<and> x \<notin> set ks) F"
    by (induction F) auto
  then show ?thesis using False by simp
qed

lemma load_keys:
  assumes "coherent st"
  shows "map fst (pkgPaths (fold loadPackage ds st)) =
    map fst (pkgPaths st) @
    filter (\<lambda>k. k \<notin> set (map fst (pkgPaths st))) (firsts (loadedNames st ds))"
  using assms
proof (induction ds arbitrary: st)
  case Nil
  then show ?case by (simp add: loadedNames_def)
next
  case (Cons d ds)
  note kc = loadPackage_keeps_coherent [OF Cons.prems, of d]
  note ih = Cons.IH [OF kc [THEN conjunct1],
    unfolded loadedNames_manifests [OF kc [THEN conjunct2]]]
  show ?case
  proof (cases "manifests st d")
    case None
    then have "loadPackage d st = st" by (simp add: loadPackage_coherent [OF Cons.prems])
    moreover have "loadedNames st (d # ds) = loadedNames st ds"
      using None by (simp add: loadedNames_def)
    ultimately show ?thesis using ih by simp
  next
    case (Some f)
    have keys: "map fst (pkgPaths (loadPackage d st)) =
        (if name (content f) \<in> set (map fst (pkgPaths st)) then map fst (pkgPaths st)
         else map fst (pkgPaths st) @ [name (content f)])"
      using Some by (simp add: loadPackage_coherent [OF Cons.prems] js_set_keys)
    have names: "loadedNames st (d # ds) = name (content f) # loadedNames st ds"
      using Some by (simp add: loadedNames_def)
    have "map fst (pkgPaths (fold loadPackage (d # ds) st)) =
        map fst (pkgPaths (fold loadPackage ds (loadPackage d st)))"
      by simp
    also have "\<dots> = map fst (pkgPaths (loadPackage d st)) @
        filter (\<lambda>k. k \<notin> set (map fst (pkgPaths (loadPackage d st)))) (firsts (loadedNames st ds))"
      by (rule ih)
    also have "\<dots> = map fst (pkgPaths st) @
        filter (\<lambda>x. x \<notin> set (map fst (pkgPaths st)))
          (name (content f) # removeAll (name (content f)) (firsts (loadedNames st ds)))"
      unfolding keys by (rule firsts_step)
    finally show ?thesis by (simp add: names)
  qed
qed

lemma fresh_coherent: "coherent (fresh st)"
  by (simp add: coherent_def fresh_def)

lemma loaded_order:
  "js_keys (pkgPaths (fold loadPackage ds (fresh st))) = enumeration (firsts (loadedNames st ds))"
proof -
  have "map fst (pkgPaths (fold loadPackage ds (fresh st))) = firsts (loadedNames (fresh st) ds)"
    using load_keys [OF fresh_coherent, of ds st] by (simp add: fresh_def)
  moreover have "loadedNames (fresh st) ds = loadedNames st ds"
    by (rule loadedNames_manifests) (simp add: fresh_def)
  ultimately show ?thesis by (simp add: js_keys_eq enumeration_def)
qed

lemma split_append: "split c (xs @ c # ys) = split c xs @ split c ys"
proof (induction xs)
  case Nil
  show ?case by simp
next
  case (Cons x xs)
  obtain p ps where s: "split c xs = p # ps"
    using split_not_Nil [of c xs] by (cases "split c xs") auto
  show ?case using Cons s by simp
qed

lemma split_join:
  "ls \<noteq> [] \<Longrightarrow> split c (join [c] ls) = concat (map (split c) ls)"
proof (induction ls)
  case Nil
  then show ?case by simp
next
  case (Cons l ls)
  show ?case
  proof (cases ls)
    case Nil
    then show ?thesis by simp
  next
    case (Cons v va)
    have "join [c] (l # v # va) = l @ c # join [c] (v # va)" by simp
    then have "split c (join [c] (l # v # va)) = split c l @ split c (join [c] (v # va))"
      by (simp only: split_append)
    then show ?thesis using Cons.IH Cons by simp
  qed
qed

lemma split_pieces: "p \<in> set (split c s) \<Longrightarrow> c \<notin> set p"
proof (induction s arbitrary: p)
  case Nil
  then show ?case by simp
next
  case (Cons x xs)
  obtain q qs where s: "split c xs = q # qs"
    using split_not_Nil [of c xs] by (cases "split c xs") auto
  show ?case
  proof (cases "x = c")
    case True
    with Cons show ?thesis by auto
  next
    case False
    with Cons.prems s have "p = x # q \<or> p \<in> set qs" by simp
    then show ?thesis
    proof
      assume "p = x # q"
      moreover have "c \<notin> set q" using Cons.IH [of q] s by simp
      ultimately show ?thesis using False by simp
    next
      assume "p \<in> set qs"
      then show ?thesis using Cons.IH [of p] s by simp
    qed
  qed
qed

lemma concat_split_free:
  "\<forall>l\<in>set ls. c \<notin> set l \<Longrightarrow> concat (map (split c) ls) = ls"
  by (induction ls) (simp_all add: split_free)

lemma split_importLine:
  "CHR ''\<newline>'' \<notin> set nm \<Longrightarrow> split (CHR ''\<newline>'') (importLine nm) = [importStatement nm, []]"
proof -
  assume a: "CHR ''\<newline>'' \<notin> set nm"
  have f: "CHR ''\<newline>'' \<notin> set (importStatement nm)"
    using a by (simp add: importStatement_def)
  have "importLine nm = importStatement nm @ CHR ''\<newline>'' # []"
    by (simp add: importLine_def importStatement_def)
  then have "split (CHR ''\<newline>'') (importLine nm) =
      split (CHR ''\<newline>'') (importStatement nm) @ split (CHR ''\<newline>'') []"
    by (simp only: split_append)
  then show ?thesis using f by (simp add: split_free)
qed

lemma importStatement_inj: "importStatement m = importStatement n \<longleftrightarrow> m = n"
  by (simp add: importStatement_def)

lemma importStatement_not_Nil: "importStatement n \<noteq> []"
  by (simp add: importStatement_def)

lemma count_import_lines:
  "\<forall>m\<in>set names. CHR ''\<newline>'' \<notin> set m \<Longrightarrow>
   count_list (concat (map (\<lambda>m. split (CHR ''\<newline>'') (importLine m)) names)) (importStatement n) =
   length (filter (\<lambda>m. m = n) names)"
proof (induction names)
  case Nil
  show ?case by simp
next
  case (Cons m ms)
  have "split (CHR ''\<newline>'') (importLine m) = [importStatement m, []]"
    using Cons.prems by (simp add: split_importLine)
  then show ?case
    using Cons importStatement_not_Nil [of n] by (auto simp: importStatement_inj)
qed

lemma references_generated:
  assumes "\<forall>m\<in>set names. CHR ''\<newline>'' \<notin> set m"
  shows "references (join ''\<newline>'' (take 3 (split (CHR ''\<newline>'') index) @ map importLine names)) n =
    count_list (take 3 (split (CHR ''\<newline>'') index)) (importStatement n) +
    length (filter (\<lambda>m. m = n) names)"
proof -
  let ?h = "take 3 (split (CHR ''\<newline>'') index)"
  have ne: "?h @ map importLine names \<noteq> []"
    using split_not_Nil [of "CHR ''\<newline>''" index] by simp
  have "\<forall>l\<in>set ?h. CHR ''\<newline>'' \<notin> set l"
    using split_pieces [of _ "CHR ''\<newline>''" index] by (auto dest: in_set_takeD)
  then have h: "concat (map (split (CHR ''\<newline>'')) ?h) = ?h"
    by (rule concat_split_free)
  have "split (CHR ''\<newline>'') (join [CHR ''\<newline>''] (?h @ map importLine names)) =
      concat (map (split (CHR ''\<newline>'')) (?h @ map importLine names))"
    using ne by (rule split_join)
  also have "\<dots> = ?h @ concat (map (\<lambda>m. split (CHR ''\<newline>'') (importLine m)) names)"
    using h by (simp add: comp_def)
  finally show ?thesis
    using count_import_lines [OF assms, of n] by (simp add: references_def)
qed

lemma ensureAllPackages_index:
  assumes "ensureAllPackages e st = Inr (ms, st')" and "files st (indexPath e) = Some index"
  shows "files st' (indexPath e) =
    Some (join ''\<newline>'' (take 3 (split (CHR ''\<newline>'') index) @
      map (\<lambda>q. importLine (nameOf st q)) (filter (\<lambda>q. q \<noteq> allPackagesPath e) (localPackages e))))"
  using assms(1)
proof (cases rule: ensureAllPackages_cases)
  case (1 A st1 index' deps lines ms0 c st2)
  note rq = require_cases [OF 1(1)]
  have st1: "st1 = st\<lparr>cache := (cache st)(allPackagesPath e \<mapsto> A)\<rparr>"
    using rq by (auto simp: map_upd_triv)
  have idx: "index' = index" using 1(2) assms(2) st1 by simp
  have nm: "nameOf st1 q = nameOf st q" for q by (simp add: st1 nameOf_def)
  note fl = allPackages_fold [OF 1(3), THEN conjunct1, unfolded nm idx]
  note pf = ensurePackageData_frame [OF 1(4)]
  obtain ms1 where ch: "changed ms0 (c, st2) = (ms1, st2)"
    by (simp add: changed_def)
  note wi = writeIndex_props [OF 1(5) [unfolded ch]]
  have f2: "files st2 (indexPath e) = Some index" using pf(2) assms(2) st1 by simp
  show ?thesis
  proof (cases "join ''\<newline>'' lines = index'")
    case True
    then have "st' = st2" using wi by simp
    then show ?thesis using f2 True fl idx by simp
  next
    case False
    then have "files st' = (files st2)(indexPath e \<mapsto> join ''\<newline>'' lines)" using wi by simp
    then show ?thesis using fl by simp
  qed
qed

lemma ensureAllPackages_entry:
  assumes "ensureAllPackages e st = Inr (ms, st')"
    and "require (allPackagesPath e) st = Inr (A, st1)"
    and "q \<in> set (localPackages e)" and "q \<noteq> allPackagesPath e"
  shows "\<exists>agg v. cache st' (allPackagesPath e) = Some agg \<and>
      js_get (dependencies agg) (nameOf st q) = Some v \<and> v \<noteq> [] \<and>
      (if js_not (js_get (dependencies A) (nameOf st q)) then caret st' (nameOf st q) v
       else js_get (dependencies A) (nameOf st q) = Some v)"
  using assms(1)
proof (cases rule: ensureAllPackages_cases)
  case (1 A' st1' index deps lines ms0 c st2)
  have same: "A' = A" "st1' = st1" using 1(1) assms(2) by simp_all
  note 1 = 1 [unfolded same]
  note rq = require_cases [OF 1(1)]
  have st1: "st1 = st\<lparr>cache := (cache st)(allPackagesPath e \<mapsto> A)\<rparr>"
    using rq by (auto simp: map_upd_triv)
  have nm: "nameOf st1 q = nameOf st q" for q by (simp add: st1 nameOf_def)
  note fl = allPackages_fold [OF 1(3)]
  note ent = fl [THEN conjunct2, THEN conjunct2, THEN conjunct2, THEN conjunct2, THEN conjunct2,
    THEN conjunct2, rule_format, OF assms(3,4), unfolded nm]
  note keep = fl [THEN conjunct2, THEN conjunct2, THEN conjunct2, THEN conjunct2, THEN conjunct1,
    rule_format]
  note pf = ensurePackageData_frame [OF 1(4)]
  obtain ms1 where ch: "changed ms0 (c, st2) = (ms1, st2)"
    by (simp add: changed_def)
  note wi = writeIndex_props [OF 1(5) [unfolded ch]]
  have c': "cache st' = (cache st1)(allPackagesPath e \<mapsto> A\<lparr>dependencies := deps\<rparr>)"
    using wi pf(1) by simp
  have paths: "pkgPaths st' = pkgPaths st1" using wi pf by simp
  from ent [THEN conjunct1] obtain v where v: "js_get deps (nameOf st q) = Some v" "v \<noteq> []"
    by (auto simp: js_not_def split: option.splits)
  have cond: "if js_not (js_get (dependencies A) (nameOf st q)) then caret st' (nameOf st q) v
       else js_get (dependencies A) (nameOf st q) = Some v"
  proof (cases "js_not (js_get (dependencies A) (nameOf st q))")
    case True
    with ent [THEN conjunct2] v obtain d where "pkgData st1 (nameOf st q) = Some d"
      "v = ''^'' @ version d"
      by auto
    then have "caret st1 (nameOf st q) v" by (auto simp: caret_def)
    then have "caret st' (nameOf st q) v"
    proof (rule caret_stable)
      show "pkgPaths st' = pkgPaths st1" by (rule paths)
      show "\<exists>obj'. cache st' p = Some obj' \<and> alike obj obj'" if "cache st1 p = Some obj" for p obj
      proof (cases "p = allPackagesPath e")
        case True
        then have "obj = A" using that rq by simp
        then show ?thesis using True c' by (simp add: alike_def)
      next
        case False
        then show ?thesis using that c' by (simp add: alike_refl)
      qed
    qed
    with True show ?thesis by simp
  next
    case False
    from keep [OF False] v have "js_get (dependencies A) (nameOf st q) = Some v" by simp
    with False show ?thesis by simp
  qed
  show ?thesis using c' v cond by simp
qed

section \<open>Claim C5: normalisation of import specifiers\<close>

text \<open>
  C5. The specifier \<open>@scope/name/sub/path\<close> is mapped to \<open>@scope/name\<close> and
  \<open>name/sub/path\<close> to \<open>name\<close>. A relative specifier \<open>./local\<close> or \<open>../local\<close> is
  mapped to \<open>.\<close> or \<open>..\<close>, which the search for missing dependencies skips: it leaves
  the messages, the cache and the dependencies as they are, and no run of
  \<open>ensurePackage\<close> reports a missing dependency \<open>.\<close> or \<open>..\<close>.
\<close>

theorem import_specifier_normalization:
  "(CHR ''/'' \<notin> set scope \<and> CHR ''/'' \<notin> set nm \<longrightarrow>
      packageName (''@'' @ scope @ ''/'' @ nm @ ''/'' @ rest) = ''@'' @ scope @ ''/'' @ nm) \<and>
   (CHR ''/'' \<notin> set nm \<and> take 1 nm \<noteq> ''@'' \<longrightarrow> packageName (nm @ ''/'' @ rest) = nm) \<and>
   packageName (''./'' @ loc) = ''.'' \<and> packageName (''../'' @ loc) = ''..'' \<and>
   missingStep e p ''.'' acc = acc \<and> missingStep e p ''..'' acc = acc \<and>
   (ensurePackage e p st = Inr (ms, st') \<longrightarrow>
      ''Missing dependency: .'' \<notin> set ms \<and> ''Missing dependency: ..'' \<notin> set ms)"
proof (intro conjI impI)
  show "packageName (''@'' @ scope @ ''/'' @ nm @ ''/'' @ rest) = ''@'' @ scope @ ''/'' @ nm"
    if "CHR ''/'' \<notin> set scope \<and> CHR ''/'' \<notin> set nm"
    using that packageName_scoped by simp
  show "packageName (nm @ ''/'' @ rest) = nm" if "CHR ''/'' \<notin> set nm \<and> take 1 nm \<noteq> ''@''"
    using that packageName_plain by simp
  show "packageName (''./'' @ loc) = ''.''" "packageName (''../'' @ loc) = ''..''"
    by (rule packageName_relative)+
  show "missingStep e p ''.'' acc = acc" "missingStep e p ''..'' acc = acc"
    by (cases acc; simp add: missingStep_def)+
  assume run: "ensurePackage e p st = Inr (ms, st')"
  have "\<not> finding p ''Missing dependency: .''" "\<not> finding p ''Missing dependency: ..''"
    by (simp_all add: finding_def)
  then show "''Missing dependency: .'' \<notin> set ms" "''Missing dependency: ..'' \<notin> set ms"
    using ensurePackage_messages [OF run] by blast+
qed

theorem import_specifier_normalization_witness:
  "packageName ''@scope/name/sub/path'' = ''@scope/name'' \<and>
   packageName ''name/sub/path'' = ''name'' \<and>
   packageName ''./local'' = ''.'' \<and> packageName ''../local'' = ''..'' \<and>
   (case ensurePackage ex_env ''A'' ex_loaded of
      Inl err \<Rightarrow> False
    | Inr (ms, st') \<Rightarrow>
        ms = [''Missing dependency: lodash'', ''Package data changed''] \<and>
        ''Missing dependency: .'' \<notin> set ms \<and> ''Missing dependency: ..'' \<notin> set ms)"
proof -
  have r: "\<not> isl (ensurePackage ex_env ''A'' ex_loaded)"
    by code_simp
  then obtain ms st' where run: "ensurePackage ex_env ''A'' ex_loaded = Inr (ms, st')"
    by (metis sum.collapse(2) surj_pair)
  have "fst (projr (ensurePackage ex_env ''A'' ex_loaded)) =
      [''Missing dependency: lodash'', ''Package data changed'']"
    by code_simp
  then have ms: "ms = [''Missing dependency: lodash'', ''Package data changed'']"
    using run by simp
  note t = import_specifier_normalization
    [of "''scope''" "''name''" "''sub/path''" "''local''" ex_env "''A''" "([], Map.empty, [])" ex_loaded ms st']
  show ?thesis using t run ms by simp
qed

section \<open>Claim C1: one version per resolved name\<close>

text \<open>
  C1 (as stated, refuted). After a full run every package that declares a resolved name
  holds the version cached for it. The dependencies that \<open>ensureAllPackages\<close> adds to the
  all-packages manifest are written after the versions of that package were made
  consistent and are not looked up: \<open>b\<close> holds \<open>a\<close> at the cached \<open>~1.0.0\<close>, the
  all-packages manifest holds \<open>a\<close> at \<open>^1.0.0\<close>.
\<close>

theorem canonical_versions_counterexample:
  "map_sum id (\<lambda>r. (seenDeps (snd r) ''a'',
       map_option dependencies (pkgData (snd r) ''b''),
       map_option dependencies (pkgData (snd r) ''@jupyterlab/all-packages'')))
     (ensureIntegrity agg_env (fresh agg_disk)) =
   Inr (Some ''~1.0.0'', Some [(''a'', ''~1.0.0'')],
        Some [(''a'', ''^1.0.0''), (''b'', ''^2.0.0'')])"
  by code_simp

text \<open>
  C1 (amended). Take a full run that starts with nothing loaded, in a workspace where no
  package is named like a property of \<open>Object.prototype\<close>. For every name \<open>k\<close> that is
  no such property either, an entry for \<open>k\<close> in the devDependencies of a loaded package
  holds the version cached for \<open>k\<close>, which is the answer of the version lookup; so does
  an entry for \<open>k\<close> in its dependencies, except that an entry of the package in the
  all-packages directory may instead hold the caret range of the version of the
  workspace package named \<open>k\<close>. (For an inherited name the script caches nothing and
  stores the inherited value.)
\<close>

theorem canonical_versions:
  assumes "ensureIntegrity e (fresh st) = Inr (report, st')"
    and "\<forall>n\<in>set (js_keys (pkgPaths st')). \<not> inherited n"
    and "pkgData st' nm = Some obj"
  shows "(\<forall>k v. \<not> inherited k \<and> js_get (devDependencies obj) k = Some v \<longrightarrow>
            seenDeps st' k = Some v \<and> v = getDependency e k) \<and>
         (\<forall>k v. \<not> inherited k \<and> js_get (dependencies obj) k = Some v \<longrightarrow>
            (seenDeps st' k = Some v \<and> v = getDependency e k) \<or>
            (js_get (pkgPaths st') nm = Some (allPackagesPath e) \<and> caret st' k v))"
  using assms(1)
proof (cases rule: ensureIntegrity_cases)
  case (1 t st1)
  note lp = load_props [OF fresh_props(1,2), of "lernaPackages e" st]
  note fr = ensureTop_frame [OF 1(1)]
  have reg: "registered st1"
    using 1(1) lp [THEN conjunct1] by (rule ensureTop_registered)
  have dist: "distinct (js_keys (pkgPaths st1))"
    using lp fr by (intro distinct_js_keys) simp
  have seen0: "seenDeps st1 = Map.empty"
    using lp fr by (simp add: fresh_props)
  note vl = validate_loop [OF 1(2) reg dist]
  note ev = vl [THEN conjunct1]
  note sd = vl [THEN conjunct2, THEN conjunct1, THEN conjunct2]
  note td = vl [THEN conjunct2, THEN conjunct2, THEN conjunct1]
  have paths: "pkgPaths st' = pkgPaths st1" using ev by (simp add: evolved_def)
  from assms(3) obtain d where d: "js_get (pkgPaths st') nm = Some d" "cache st' d = Some obj"
    by (auto simp: pkgData_def split: option.splits)
  have "nm \<in> set (js_keys (pkgPaths st1))"
    using js_get_Some_mem [OF d(1)] by (force simp: set_js_keys paths)
  from td [rule_format, OF this] d paths have tidy: "tidy e st' d obj" by auto
  have lookup: "v = getDependency e k" if "seenDeps st' k = Some v" for k v
    using sd [rule_format, OF that] seen0 by simp
  show ?thesis
  proof (intro conjI allI impI)
    fix k v assume "\<not> inherited k \<and> js_get (devDependencies obj) k = Some v"
    then have "js_get (devDependencies obj) k = Some v" ..
    with tidy show s: "seenDeps st' k = Some v" by (simp add: tidy_def settled_def)
    show "v = getDependency e k" using s by (rule lookup)
  next
    fix k v assume "\<not> inherited k \<and> js_get (dependencies obj) k = Some v"
    then have "js_get (dependencies obj) k = Some v" ..
    with tidy have "seenDeps st' k = Some v \<or> (d = allPackagesPath e \<and> caret st' k v)"
      by (simp add: tidy_def)
    then show "(seenDeps st' k = Some v \<and> v = getDependency e k) \<or>
            (js_get (pkgPaths st') nm = Some (allPackagesPath e) \<and> caret st' k v)"
      using lookup d(1) by auto
  qed
qed

theorem canonical_versions_witness:
  "case ensureIntegrity agg_env (fresh agg_disk) of
     Inl err \<Rightarrow> False
   | Inr (report, st') \<Rightarrow>
       js_keys (pkgPaths st') = [''a'', ''@jupyterlab/all-packages'', ''b''] \<and>
       map_option dependencies (pkgData st' ''b'') = Some [(''a'', ''~1.0.0'')] \<and>
       seenDeps st' ''a'' = Some ''~1.0.0'' \<and> getDependency agg_env ''a'' = ''~1.0.0''"
proof -
  have r: "\<not> isl (ensureIntegrity agg_env (fresh agg_disk))"
    by code_simp
  then obtain report st' where run: "ensureIntegrity agg_env (fresh agg_disk) = Inr (report, st')"
    by (metis sum.collapse(2) surj_pair)
  have "js_keys (pkgPaths (snd (projr (ensureIntegrity agg_env (fresh agg_disk))))) =
      [''a'', ''@jupyterlab/all-packages'', ''b'']"
    by code_simp
  then have names: "js_keys (pkgPaths st') = [''a'', ''@jupyterlab/all-packages'', ''b'']"
    using run by simp
  have own: "\<forall>n\<in>set (js_keys (pkgPaths st')). \<not> inherited n"
    unfolding names by (simp add: inherited_def)
  have "pkgData (snd (projr (ensureIntegrity agg_env (fresh agg_disk)))) ''b'' =
      Some \<lparr>name = ''b'', version = ''2.0.0'', dependencies = [(''a'', ''~1.0.0'')],
        devDependencies = []\<rparr>"
    by code_simp
  then have p: "pkgData st' ''b'' =
      Some \<lparr>name = ''b'', version = ''2.0.0'', dependencies = [(''a'', ''~1.0.0'')],
        devDependencies = []\<rparr>"
    using run by simp
  have "js_get (pkgPaths (snd (projr (ensureIntegrity agg_env (fresh agg_disk))))) ''b'' =
      Some ''/repo/packages/b''"
    by code_simp
  then have q: "js_get (pkgPaths st') ''b'' = Some ''/repo/packages/b''"
    using run by simp
  have ap: "allPackagesPath agg_env = ''/repo/packages/all-packages''"
    by code_simp
  have k: "\<not> inherited ''a''"
    by (simp add: inherited_def)
  from canonical_versions [OF run own p, THEN conjunct2, rule_format, of "''a''" "''~1.0.0''"]
  have "seenDeps st' ''a'' = Some ''~1.0.0'' \<and> ''~1.0.0'' = getDependency agg_env ''a''"
    using q ap k by (simp add: js_get_def)
  then show ?thesis
    unfolding run using p names by simp
qed

section \<open>Claim C2: a second run\<close>




section \<open>Claim C3: missing dependencies\<close>

text \<open>
  C3 (as stated, refuted). For every package, an imported name that is no key of the
  dependencies gives one finding \<open>Missing dependency\<close> and is added with the resolved
  version. For the all-packages package \<open>ensureAllPackages\<close> runs first: it adds the
  imported package \<open>a\<close> with \<open>^\<close> and its own version and reports \<open>Updated: a\<close>, and
  the search for missing dependencies then finds the name declared. The resolved version
  of \<open>a\<close> is \<open>~1.0.0\<close>. Besides, the test \<open>!deps[name]\<close> also holds for a declared
  empty version: when the lookup answers the empty string, a name that two specifiers
  share is reported once for each.
\<close>

theorem missing_dependency_counterexample:
  "js_get (pkgPaths agg_loaded) ''@jupyterlab/all-packages'' = Some ''/repo/packages/all-packages'' \<and>
   map_option dependencies (cache agg_loaded ''/repo/packages/all-packages'') = Some [] \<and>
   importNames agg_env agg_loaded ''/repo/packages/all-packages'' = Inr [''a'', ''b''] \<and>
   listed MISSING ''@jupyterlab/all-packages'' ''a'' = False \<and>
   canonical agg_env (seenDeps agg_loaded) ''a'' = ''~1.0.0'' \<and>
   map_sum id (\<lambda>r. (fst r, map_option dependencies (cache (snd r) ''/repo/packages/all-packages'')))
     (ensurePackage agg_env ''@jupyterlab/all-packages'' agg_loaded) =
     Inr ([''Updated: a'', ''Updated: b'', ''Package data changed''],
          Some [(''a'', ''^1.0.0''), (''b'', ''^2.0.0'')]) \<and>
   importNames blank_env ex_loaded ''/repo/packages/a'' = Inr [''lodash'', ''lodash''] \<and>
   map_sum id fst (ensurePackage blank_env ''A'' ex_loaded) =
     Inr [''Missing dependency: lodash'', ''Missing dependency: lodash'', ''Package data changed'']"
  by code_simp

text \<open>
  C3 (amended). For every package other than \<open>@jupyterlab/all-packages\<close> and every
  package name \<open>x\<close> among its imports that is no key of its dependencies, is not listed
  in \<open>MISSING\<close> for the package, is neither \<open>.\<close> nor \<open>..\<close> and has a resolved version
  that is not the empty string, where neither \<open>x\<close> nor the name of the package is a
  property of \<open>Object.prototype\<close>: \<open>ensurePackage\<close> reports \<open>Missing dependency: x\<close>
  exactly once, and afterwards the dependencies of the package and the cache both hold
  the resolved version for \<open>x\<close>. (For an inherited name \<open>deps[x]\<close> is a function, and
  the script reports and adds nothing.)
\<close>

theorem missing_dependency_added:
  assumes "ensurePackage e p st = Inr (ms, st')"
    and "p \<noteq> ''@jupyterlab/all-packages''"
    and "js_get (pkgPaths st) p = Some dname" and "cache st dname = Some data"
    and "importNames e st dname = Inr names" and "x \<in> set names"
    and "x \<notin> fst ` set (dependencies data)"
    and "\<not> listed MISSING p x" and "x \<noteq> ''.''" and "x \<noteq> ''..''"
    and "canonical e (seenDeps st) x \<noteq> []"
    and "\<not> inherited x" and "\<not> inherited p"
  shows "count_list ms (''Missing dependency: '' @ x) = 1 \<and>
    (\<exists>data'. cache st' dname = Some data' \<and>
       js_get (dependencies data') x = Some (canonical e (seenDeps st) x)) \<and>
    seenDeps st' x = Some (canonical e (seenDeps st) x)"
proof -
  have src: "sourceFiles e dname \<noteq> []"
  proof
    assume "sourceFiles e dname = []"
    then have "importNames e st dname = Inr []" by (simp add: importNames_def bindE_def)
    with assms(5,6) show False by simp
  qed
  from assms(1,3,4) src show ?thesis
  proof (cases rule: ensurePackage_sources)
    case (1 ms0 st2 data2 ns ms1 seen1 deps1 c)
    note plain = 1(10) [rule_format, OF assms(2)]
    have ms0: "ms0 = []" using 1(1) assms(2) by simp
    have "importNames e st' dname = importNames e st dname"
      using plain by (intro importNames_files) simp
    then have ns: "ns = names" using 1(3) assms(5) by simp
    have can: "canonical e (seenDeps st2) x = canonical e (seenDeps st) x"
      using plain by (intro canonical_mono) simp_all
    have "x \<notin> set (map fst (dependencies data2))"
      using plain assms(7) by simp
    then have absent: "js_not (js_get (dependencies data2) x)"
      by (simp add: js_get_def js_not_def map_of_eq_None_iff [THEN iffD2])
    have c2: "canonical e (seenDeps st2) x \<noteq> []" using can assms(11) by simp
    note mc = missing_fold_count [OF 1(4) assms(8,9,10) c2, THEN conjunct1, rule_format,
      OF conjI [OF absent assms(6) [folded ns]], unfolded can ms0]
    have cnt1: "count_list ms1 (''Missing dependency: '' @ x) = 1" using mc by simp
    have d1: "js_get deps1 x = Some (canonical e (seenDeps st) x)" using mc by simp
    have s1: "seen1 x = Some (canonical e (seenDeps st) x)" using mc by simp
    have cnt: "count_list ms (''Missing dependency: '' @ x) = 1"
      unfolding 1(7) count_list_append cnt1 count_unused_missing count_changed_missing
      by simp
    have "\<not> unusedIn p ns x" using assms(6) ns by (simp add: unusedIn_def)
    then have "js_get (pruned p ns deps1) x = js_get deps1 x"
      unfolding pruned_def using js_get_filter [of "\<lambda>k. \<not> unusedIn p ns k" deps1 x] by simp
    then have "\<exists>data'. cache st' dname = Some data' \<and>
       js_get (dependencies data') x = Some (canonical e (seenDeps st) x)"
      using 1(5) d1 by simp
    then show ?thesis using cnt s1 1(6) by simp
  qed
qed

theorem missing_dependency_added_witness:
  "importNames ex_env ex_loaded ''/repo/packages/a'' = Inr [''.'', ''lodash''] \<and>
   canonical ex_env (seenDeps ex_loaded) ''lodash'' = ''^1.0.0'' \<and>
   \<not> inherited ''lodash'' \<and> \<not> inherited ''A'' \<and>
   (case ensurePackage ex_env ''A'' ex_loaded of
      Inl err \<Rightarrow> False
    | Inr (ms, st') \<Rightarrow>
        count_list ms ''Missing dependency: lodash'' = 1 \<and>
        seenDeps st' ''lodash'' = Some ''^1.0.0'')"
proof -
  have r: "\<not> isl (ensurePackage ex_env ''A'' ex_loaded)"
    by code_simp
  then obtain ms st' where run: "ensurePackage ex_env ''A'' ex_loaded = Inr (ms, st')"
    by (metis sum.collapse(2) surj_pair)
  have p: "js_get (pkgPaths ex_loaded) ''A'' = Some ''/repo/packages/a''"
    by code_simp
  have c: "cache ex_loaded ''/repo/packages/a'' =
      Some \<lparr>name = ''A'', version = ''0.1.0'', dependencies = [],
        devDependencies = [(''typescript'', ''~2.4.1'')]\<rparr>"
    by code_simp
  have n: "importNames ex_env ex_loaded ''/repo/packages/a'' = Inr [''.'', ''lodash'']"
    by code_simp
  have l: "\<not> listed MISSING ''A'' ''lodash''"
    by code_simp
  have k: "canonical ex_env (seenDeps ex_loaded) ''lodash'' = ''^1.0.0''"
    by code_simp
  have t: "count_list ms (''Missing dependency: '' @ ''lodash'') = 1 \<and>
    (\<exists>data'. cache st' ''/repo/packages/a'' = Some data' \<and>
       js_get (dependencies data') ''lodash'' = Some (canonical ex_env (seenDeps ex_loaded) ''lodash'')) \<and>
    seenDeps st' ''lodash'' = Some (canonical ex_env (seenDeps ex_loaded) ''lodash'')"
    by (rule missing_dependency_added [OF run _ p c n]) (simp_all add: l k inherited_def)
  show ?thesis
    unfolding run using t n k by (simp add: inherited_def)
qed

section \<open>Claim C4: unused dependencies\<close>

text \<open>
  C4 (as stated, refuted). For every package, a declared dependency that is not imported
  and not listed in \<open>UNUSED\<close> is removed with one finding. Package \<open>C\<close> has no source
  file: \<open>ensurePackage\<close> returns on line 75, reports nothing and keeps \<open>left-pad\<close>.
\<close>

theorem unused_dependency_counterexample:
  "js_get (pkgPaths ex_loaded) ''C'' = Some ''/repo/packages/c'' \<and>
   map_option dependencies (cache ex_loaded ''/repo/packages/c'') =
     Some [(''left-pad'', ''^1.0.0'')] \<and>
   importNames ex_env ex_loaded ''/repo/packages/c'' = Inr [] \<and>
   listed UNUSED ''C'' ''left-pad'' = False \<and>
   map_sum id (\<lambda>r. (fst r, map_option dependencies (cache (snd r) ''/repo/packages/c'')))
     (ensurePackage ex_env ''C'' ex_loaded) = Inr ([], Some [(''left-pad'', ''^1.0.0'')])"
  by code_simp

text \<open>
  C4 (amended). For every package and every key \<open>d\<close> of its dependencies: if the package
  has at least one source file, \<open>d\<close> is not among the package names of its imports and
  \<open>d\<close> is not listed in \<open>UNUSED\<close> for the package, then \<open>d\<close> is removed from the
  dependencies and \<open>Unused dependency: d\<close> is reported exactly once; if \<open>d\<close> is listed
  in \<open>UNUSED\<close> for the package, it stays a key of the dependencies.
\<close>

theorem unused_dependency_removed:
  assumes "ensurePackage e p st = Inr (ms, st')"
    and "js_get (pkgPaths st) p = Some dname" and "cache st dname = Some data"
    and "distinct (map fst (dependencies data))"
    and "d \<in> fst ` set (dependencies data)"
  shows "\<exists>data'. cache st' dname = Some data' \<and>
    (sourceFiles e dname \<noteq> [] \<and> \<not> listed UNUSED p d \<and>
     (\<exists>names. importNames e st' dname = Inr names \<and> d \<notin> set names) \<longrightarrow>
       d \<notin> fst ` set (dependencies data') \<and>
       count_list ms (''Unused dependency: '' @ d) = 1) \<and>
    (listed UNUSED p d \<longrightarrow> d \<in> fst ` set (dependencies data'))"
proof (cases "sourceFiles e dname = []")
  case True
  from assms(1,2,3) True obtain ms0 st2 data2 c where
    sp: "(if p = ''@jupyterlab/all-packages''
       then ensureAllPackages e (verifyDependencies e dname data st)
       else Inr ([], verifyDependencies e dname data st)) = Inr (ms0, st2)"
    and c2: "cache st2 dname = Some data2"
    and w: "ensurePackageData e data2 dname st2 = Inr (c, st')"
    and "ms = (if c then ms0 @ [''Package data changed''] else ms0)"
    by (rule ensurePackage_no_sources)
  from verifyDependencies_props(7) [OF refl, of e dname data st]
  obtain data1 where c1: "cache (verifyDependencies e dname data st) dname = Some data1"
    and k1: "map fst (dependencies data1) = map fst (dependencies data)"
    by auto
  from special_case_keys [OF sp c1] c2
  have "fst ` set (dependencies data1) \<subseteq> fst ` set (dependencies data2)" by auto
  moreover have "fst ` set (dependencies data) = fst ` set (dependencies data1)"
    using k1 by (metis list.set_map)
  ultimately have "d \<in> fst ` set (dependencies data2)" using assms(5) by blast
  moreover have "cache st' dname = Some data2"
    using ensurePackageData_frame(1) [OF w] c2 by simp
  ultimately show ?thesis using True by simp
next
  case False
  from assms(1,2,3) False show ?thesis
  proof (cases rule: ensurePackage_sources)
    case (1 ms0 st2 data2 ns ms1 seen1 deps1 c)
    have d2: "d \<in> fst ` set (dependencies data2)" using 1(8) assms(5) by blast
    have dist2: "distinct (map fst (dependencies data2))" using 1(9) assms(4) by simp
    have d1: "d \<in> fst ` set deps1" using missing_fold_keys [OF 1(4)] d2 by blast
    have "distinct (map fst (snd (snd (fold (missingStep e p) ns
        (ms0, seenDeps st2, dependencies data2)))))"
      by (rule missing_fold_distinct) (simp add: dist2)
    then have dist1: "distinct (map fst deps1)" by (simp add: 1(4))
    have cnt1: "count_list ms1 (''Unused dependency: '' @ d) = 0"
      using count_missing_unused [OF 1(4), of d] count_sync_unused [OF 1(11), of d] by simp
    have removed: "d \<notin> fst ` set (pruned p ns deps1) \<and>
        count_list ms (''Unused dependency: '' @ d) = 1"
      if "unusedIn p ns d"
    proof
      show "d \<notin> fst ` set (pruned p ns deps1)"
        using that by (simp add: pruned_keys)
      have "d \<in> set (filter (unusedIn p ns) (js_keys deps1))"
        using that d1 by (simp add: set_js_keys)
      moreover have "distinct (filter (unusedIn p ns) (js_keys deps1))"
        using dist1 by (simp add: distinct_js_keys)
      ultimately have k: "count_list (filter (unusedIn p ns) (js_keys deps1)) d = 1"
        by (simp add: count_list_distinct)
      show "count_list ms (''Unused dependency: '' @ d) = 1"
        unfolding 1(7) count_list_append cnt1 count_changed_unused count_unused_map k by simp
    qed
    have kept: "d \<in> fst ` set (pruned p ns deps1)" if "listed UNUSED p d"
      using that d1 by (simp add: pruned_keys unusedIn_def)
    show ?thesis
    proof (intro exI [of _ "data2\<lparr>dependencies := pruned p ns deps1\<rparr>"] conjI impI)
      show "cache st' dname = Some (data2\<lparr>dependencies := pruned p ns deps1\<rparr>)"
        by (rule 1(5))
      assume a: "sourceFiles e dname \<noteq> [] \<and> \<not> listed UNUSED p d \<and>
        (\<exists>names. importNames e st' dname = Inr names \<and> d \<notin> set names)"
      then have "d \<notin> set ns" using 1(3) by auto
      with a have "unusedIn p ns d" by (simp add: unusedIn_def)
      from removed [OF this]
      show "d \<notin> fst ` set (dependencies (data2\<lparr>dependencies := pruned p ns deps1\<rparr>))"
        "count_list ms (''Unused dependency: '' @ d) = 1"
        by simp_all
    next
      assume "listed UNUSED p d"
      from kept [OF this]
      show "d \<in> fst ` set (dependencies (data2\<lparr>dependencies := pruned p ns deps1\<rparr>))"
        by simp
    qed
  qed
qed

theorem unused_dependency_removed_witness:
  "(case ensurePackage ex_env ''B'' ex_loaded of
      Inl err \<Rightarrow> False
    | Inr (ms, st') \<Rightarrow>
        importNames ex_env st' ''/repo/packages/b'' = Inr [] \<and>
        count_list ms ''Unused dependency: left-pad'' = 1 \<and>
        map_option dependencies (cache st' ''/repo/packages/b'') = Some []) \<and>
   (case ensurePackage ex_env ''@jupyterlab/theme-dark-extension'' ex_loaded of
      Inl err \<Rightarrow> False
    | Inr (ms, st') \<Rightarrow>
        listed UNUSED ''@jupyterlab/theme-dark-extension'' ''font-awesome'' \<and>
        importNames ex_env st' ''/repo/packages/theme-dark-extension'' = Inr [] \<and>
        map_option (\<lambda>obj. map fst (dependencies obj))
          (cache st' ''/repo/packages/theme-dark-extension'') = Some [''font-awesome''])"
proof -
  have r: "\<not> isl (ensurePackage ex_env ''B'' ex_loaded)"
    by code_simp
  then obtain ms st' where run: "ensurePackage ex_env ''B'' ex_loaded = Inr (ms, st')"
    by (metis sum.collapse(2) surj_pair)
  have p: "js_get (pkgPaths ex_loaded) ''B'' = Some ''/repo/packages/b''"
    by code_simp
  have c: "cache ex_loaded ''/repo/packages/b'' =
      Some \<lparr>name = ''B'', version = ''0.1.0'', dependencies = [(''left-pad'', ''^1.0.0'')],
        devDependencies = []\<rparr>"
    by code_simp
  have s: "sourceFiles ex_env ''/repo/packages/b'' \<noteq> []"
    by code_simp
  have l: "\<not> listed UNUSED ''B'' ''left-pad''"
    by code_simp
  have "importNames ex_env (snd (projr (ensurePackage ex_env ''B'' ex_loaded)))
      ''/repo/packages/b'' = Inr []"
    by code_simp
  then have n: "importNames ex_env st' ''/repo/packages/b'' = Inr []"
    using run by simp
  have "map_option dependencies
      (cache (snd (projr (ensurePackage ex_env ''B'' ex_loaded))) ''/repo/packages/b'') = Some []"
    by code_simp
  then have v: "map_option dependencies (cache st' ''/repo/packages/b'') = Some []"
    using run by simp
  from unused_dependency_removed [OF run p c, of "''left-pad''"] s l n
  have t: "count_list ms (''Unused dependency: '' @ ''left-pad'') = 1"
    by auto
  have r2: "\<not> isl (ensurePackage ex_env ''@jupyterlab/theme-dark-extension'' ex_loaded)"
    by code_simp
  then obtain ms2 st2 where
    run2: "ensurePackage ex_env ''@jupyterlab/theme-dark-extension'' ex_loaded = Inr (ms2, st2)"
    by (metis sum.collapse(2) surj_pair)
  have p2: "js_get (pkgPaths ex_loaded) ''@jupyterlab/theme-dark-extension'' =
      Some ''/repo/packages/theme-dark-extension''"
    by code_simp
  have c2: "cache ex_loaded ''/repo/packages/theme-dark-extension'' =
      Some \<lparr>name = ''@jupyterlab/theme-dark-extension'', version = ''0.1.0'',
        dependencies = [(''font-awesome'', ''^1.0.0'')], devDependencies = []\<rparr>"
    by code_simp
  have l2: "listed UNUSED ''@jupyterlab/theme-dark-extension'' ''font-awesome''"
    by code_simp
  have "importNames ex_env
      (snd (projr (ensurePackage ex_env ''@jupyterlab/theme-dark-extension'' ex_loaded)))
      ''/repo/packages/theme-dark-extension'' = Inr []"
    by code_simp
  then have n2: "importNames ex_env st2 ''/repo/packages/theme-dark-extension'' = Inr []"
    using run2 by simp
  have "map_option (\<lambda>obj. map fst (dependencies obj))
      (cache (snd (projr (ensurePackage ex_env ''@jupyterlab/theme-dark-extension'' ex_loaded)))
        ''/repo/packages/theme-dark-extension'') = Some [''font-awesome'']"
    by code_simp
  then have v2: "map_option (\<lambda>obj. map fst (dependencies obj))
      (cache st2 ''/repo/packages/theme-dark-extension'') = Some [''font-awesome'']"
    using run2 by simp
  show ?thesis
    unfolding run run2 using t n v l2 n2 v2 by simp
qed

section \<open>Claim C6: the all-packages package\<close>

text \<open>
  C6 (as stated, refuted). After \<open>ensureAllPackages\<close> the all-packages manifest depends on
  every other package of the workspace and its index references each exactly once. The
  loop of lines 147 to 170 runs over the directories of \<open>packages/*\<close> only: the package
  \<open>app\<close> in \<open>examples/app\<close>, which the patterns of \<open>lerna.json\<close> yield and lines 257 to 269
  load, gets no dependency and no import line. Besides, the first three lines of the old
  index are kept whatever they hold: from an index with a header of one line the import
  of \<open>a\<close> is kept and generated again.
\<close>

theorem aggregator_counterexample:
  "js_keys (pkgPaths wide_loaded) = [''a'', ''@jupyterlab/all-packages'', ''b'', ''app''] \<and>
   map_sum id (\<lambda>r. (map_option dependencies (cache (snd r) ''/repo/packages/all-packages''),
       map_option (\<lambda>text. references text ''app'')
         (files (snd r) ''/repo/packages/all-packages/src/index.ts'')))
     (ensureAllPackages wide_env wide_loaded) =
     Inr (Some [(''a'', ''^1.0.0''), (''b'', ''^2.0.0'')], Some 0) \<and>
   map_sum id (\<lambda>r. (files (snd r) ''/repo/packages/all-packages/src/index.ts'',
       map_option (\<lambda>text. references text ''a'')
         (files (snd r) ''/repo/packages/all-packages/src/index.ts'')))
     (ensureAllPackages agg_env short_loaded) =
     Inr (Some ''// Copyright\<newline>import \"a\";\<newline>\<newline>import \"a\";\<newline>\<newline>import \"b\";\<newline>'', Some 2)"
  by code_simp

text \<open>
  C6 (amended). Let \<open>q\<close> be a directory of \<open>packages/*\<close> other than the all-packages
  directory and \<open>n\<close> the name registered for it, where \<open>n\<close> is no property of
  \<open>Object.prototype\<close> and no registered name of a directory of \<open>packages/*\<close> contains a line
  break. After \<open>ensureAllPackages\<close> the dependencies of the all-packages manifest hold a
  non-empty version for \<open>n\<close>: the caret range of the version of the package \<open>n\<close> if the
  entry was absent or empty, the former entry otherwise. The index then holds the line
  \<open>import "n";\<close> once for each directory of \<open>packages/*\<close>, other than the all-packages
  directory, that is registered under the name \<open>n\<close>, and once more for each of the first
  three lines of the old index that is this line.
\<close>

theorem aggregator_complete:
  assumes "ensureAllPackages e st = Inr (ms, st')"
    and "require (allPackagesPath e) st = Inr (A, st1)"
    and "files st (indexPath e) = Some index"
    and "q \<in> set (localPackages e)" and "q \<noteq> allPackagesPath e"
    and "\<not> inherited (nameOf st q)"
    and "\<forall>q'\<in>set (localPackages e). CHR ''\<newline>'' \<notin> set (nameOf st q')"
  shows "(\<exists>agg v. cache st' (allPackagesPath e) = Some agg \<and>
      js_get (dependencies agg) (nameOf st q) = Some v \<and> v \<noteq> [] \<and>
      (if js_not (js_get (dependencies A) (nameOf st q)) then caret st' (nameOf st q) v
       else js_get (dependencies A) (nameOf st q) = Some v)) \<and>
    (\<exists>text. files st' (indexPath e) = Some text \<and>
      references text (nameOf st q) =
        count_list (take 3 (split (CHR ''\<newline>'') index)) (importStatement (nameOf st q)) +
        length (filter (\<lambda>q'. q' \<noteq> allPackagesPath e \<and> nameOf st q' = nameOf st q)
          (localPackages e)))"
proof
  show "\<exists>agg v. cache st' (allPackagesPath e) = Some agg \<and>
      js_get (dependencies agg) (nameOf st q) = Some v \<and> v \<noteq> [] \<and>
      (if js_not (js_get (dependencies A) (nameOf st q)) then caret st' (nameOf st q) v
       else js_get (dependencies A) (nameOf st q) = Some v)"
    using assms(1,2,4,5) by (rule ensureAllPackages_entry)
next
  let ?names = "map (nameOf st) (filter (\<lambda>q. q \<noteq> allPackagesPath e) (localPackages e))"
  have free: "\<forall>m\<in>set ?names. CHR ''\<newline>'' \<notin> set m"
    using assms(7) by auto
  have gen: "files st' (indexPath e) =
      Some (join ''\<newline>'' (take 3 (split (CHR ''\<newline>'') index) @ map importLine ?names))"
    using ensureAllPackages_index [OF assms(1,3)] by (simp add: comp_def)
  have "length (filter (\<lambda>m. m = nameOf st q) ?names) =
      length (filter (\<lambda>q'. q' \<noteq> allPackagesPath e \<and> nameOf st q' = nameOf st q) (localPackages e))"
    by (simp add: filter_map comp_def conj_commute)
  then show "\<exists>text. files st' (indexPath e) = Some text \<and>
      references text (nameOf st q) =
        count_list (take 3 (split (CHR ''\<newline>'') index)) (importStatement (nameOf st q)) +
        length (filter (\<lambda>q'. q' \<noteq> allPackagesPath e \<and> nameOf st q' = nameOf st q)
          (localPackages e))"
    using gen references_generated [OF free, of index "nameOf st q"] by simp
qed

theorem aggregator_complete_witness:
  "nameOf agg_loaded ''/repo/packages/a'' = ''a'' \<and>
   map_option dependencies (cache agg_loaded ''/repo/packages/all-packages'') = Some [] \<and>
   (case ensureAllPackages agg_env agg_loaded of
      Inl err \<Rightarrow> False
    | Inr (ms, st') \<Rightarrow>
        (\<exists>agg. cache st' ''/repo/packages/all-packages'' = Some agg \<and>
           js_get (dependencies agg) ''a'' = Some ''^1.0.0'') \<and>
        (\<exists>text. files st' ''/repo/packages/all-packages/src/index.ts'' = Some text \<and>
           references text ''a'' = 1))"
proof -
  have r: "\<not> isl (ensureAllPackages agg_env agg_loaded)"
    by code_simp
  then obtain ms st' where run: "ensureAllPackages agg_env agg_loaded = Inr (ms, st')"
    by (metis sum.collapse(2) surj_pair)
  have "\<not> isl (require (allPackagesPath agg_env) agg_loaded)"
    by code_simp
  then obtain A st1 where rq: "require (allPackagesPath agg_env) agg_loaded = Inr (A, st1)"
    by (metis sum.collapse(2) surj_pair)
  have "dependencies (fst (projr (require (allPackagesPath agg_env) agg_loaded))) = []"
    by code_simp
  then have dA: "dependencies A = []" using rq by simp
  have c0: "map_option dependencies (cache agg_loaded ''/repo/packages/all-packages'') = Some []"
    by code_simp
  have idx: "files agg_loaded (indexPath agg_env) =
      Some ''// Copyright\<newline>// License\<newline>\<newline>import \"a\";\<newline>\<newline>import \"b\";\<newline>''"
    by code_simp
  have q: "''/repo/packages/a'' \<in> set (localPackages agg_env)"
    by code_simp
  have ap: "allPackagesPath agg_env = ''/repo/packages/all-packages''"
    by code_simp
  have ip: "indexPath agg_env = ''/repo/packages/all-packages/src/index.ts''"
    by code_simp
  have n: "nameOf agg_loaded ''/repo/packages/a'' = ''a''"
    by code_simp
  have free: "\<forall>q'\<in>set (localPackages agg_env). CHR ''\<newline>'' \<notin> set (nameOf agg_loaded q')"
    by code_simp
  have hd: "count_list (take 3 (split (CHR ''\<newline>'')
      ''// Copyright\<newline>// License\<newline>\<newline>import \"a\";\<newline>\<newline>import \"b\";\<newline>''))
      (importStatement ''a'') = 0"
    by code_simp
  have dirs: "length (filter (\<lambda>q'. q' \<noteq> allPackagesPath agg_env \<and> nameOf agg_loaded q' = ''a'')
      (localPackages agg_env)) = 1"
    by code_simp
  have "map_option version (pkgData (snd (projr (ensureAllPackages agg_env agg_loaded))) ''a'') =
      Some ''1.0.0''"
    by code_simp
  then have ver: "map_option version (pkgData st' ''a'') = Some ''1.0.0''"
    using run by simp
  have t: "(\<exists>agg v. cache st' (allPackagesPath agg_env) = Some agg \<and>
      js_get (dependencies agg) (nameOf agg_loaded ''/repo/packages/a'') = Some v \<and> v \<noteq> [] \<and>
      (if js_not (js_get (dependencies A) (nameOf agg_loaded ''/repo/packages/a''))
       then caret st' (nameOf agg_loaded ''/repo/packages/a'') v
       else js_get (dependencies A) (nameOf agg_loaded ''/repo/packages/a'') = Some v)) \<and>
    (\<exists>text. files st' (indexPath agg_env) = Some text \<and>
      references text (nameOf agg_loaded ''/repo/packages/a'') =
        count_list (take 3 (split (CHR ''\<newline>'')
          ''// Copyright\<newline>// License\<newline>\<newline>import \"a\";\<newline>\<newline>import \"b\";\<newline>''))
          (importStatement (nameOf agg_loaded ''/repo/packages/a'')) +
        length (filter (\<lambda>q'. q' \<noteq> allPackagesPath agg_env \<and>
            nameOf agg_loaded q' = nameOf agg_loaded ''/repo/packages/a'')
          (localPackages agg_env)))"
    by (rule aggregator_complete [OF run rq idx q _ _ free]) (simp_all add: ap n inherited_def)
  from t [THEN conjunct1] obtain agg v where
    agg: "cache st' ''/repo/packages/all-packages'' = Some agg"
      "js_get (dependencies agg) ''a'' = Some v" "caret st' ''a'' v"
    unfolding n ap dA by (auto simp: js_not_def js_get_def)
  from agg(3) ver have "v = ''^1.0.0''" by (auto simp: caret_def)
  with agg have one: "\<exists>agg. cache st' ''/repo/packages/all-packages'' = Some agg \<and>
           js_get (dependencies agg) ''a'' = Some ''^1.0.0''"
    by auto
  from t [THEN conjunct2] have two: "\<exists>text. files st' ''/repo/packages/all-packages/src/index.ts'' = Some text \<and>
           references text ''a'' = 1"
    unfolding n ip hd dirs by simp
  show ?thesis
    unfolding run using n c0 one two by simp
qed

section \<open>Claim C7: packages without source files\<close>

text \<open>
  C7 (as stated, refuted). A package without source files skips the special case of the
  all-packages package. The special case is decided by the name of the package and runs
  before the source files are looked for: the package named
  \<open>@jupyterlab/all-packages\<close> in the directory \<open>packages/meta\<close> has no source file,
  and its validation still synchronises the manifest and the index in
  \<open>packages/all-packages\<close>.
\<close>

theorem no_source_files_counterexample:
  "sourceFiles c7_env ''/repo/packages/meta'' = [] \<and>
   js_get (pkgPaths c7_loaded) ''@jupyterlab/all-packages'' = Some ''/repo/packages/meta'' \<and>
   map_sum id fst (ensurePackage c7_env ''@jupyterlab/all-packages'' c7_loaded) =
     Inr [''Updated: @jupyterlab/all-packages'', ''Package data changed'', ''Index changed''] \<and>
   map_sum id (\<lambda>r. map_option (\<lambda>f. dependencies (content f))
       (manifests (snd r) ''/repo/packages/all-packages''))
     (ensurePackage c7_env ''@jupyterlab/all-packages'' c7_loaded) =
     Inr (Some [(''@jupyterlab/all-packages'', ''^0.1.0'')])"
  by code_simp

text \<open>
  C7 (amended). For a package without source files, \<open>ensurePackage\<close> makes the declared
  versions consistent, runs \<open>ensureAllPackages\<close> when the package is named
  \<open>@jupyterlab/all-packages\<close>, and then only writes the manifest if its text differs:
  no import is read, no missing or unused dependency is reported, and for every other
  name the only possible message is \<open>Package data changed\<close>.
\<close>

theorem no_source_files:
  assumes "ensurePackage e p st = Inr (ms, st')"
    and "js_get (pkgPaths st) p = Some dname" and "cache st dname = Some data"
    and "sourceFiles e dname = []"
  shows "(\<exists>ms0 st2 data2 c.
      (if p = ''@jupyterlab/all-packages''
       then ensureAllPackages e (verifyDependencies e dname data st)
       else Inr ([], verifyDependencies e dname data st)) = Inr (ms0, st2) \<and>
      cache st2 dname = Some data2 \<and>
      ensurePackageData e data2 dname st2 = Inr (c, st') \<and>
      ms = (if c then ms0 @ [''Package data changed''] else ms0)) \<and>
    (p \<noteq> ''@jupyterlab/all-packages'' \<longrightarrow>
       (ms = [] \<or> ms = [''Package data changed'']) \<and>
       cache st' = cache (verifyDependencies e dname data st) \<and>
       seenDeps st' = seenDeps (verifyDependencies e dname data st) \<and>
       files st' = files st) \<and>
    (\<forall>n. ''Missing dependency: '' @ n \<notin> set ms \<and> ''Unused dependency: '' @ n \<notin> set ms)"
  using assms(1)
proof (cases rule: ensurePackage_cases)
  case (1 dname' data' ms0 st2)
  have eq: "dname' = dname" "data' = data" using 1(1,2) assms(2,3) by simp_all
  note sp = 1(3) [unfolded eq]
  from 1(4) [unfolded eq] show ?thesis
  proof (cases rule: checkImports_cases)
    case (some data2 names ms1 seen1 deps1 c)
    then show ?thesis using assms(4) by simp
  next
    case (none data2 c)
    note pf = ensurePackageData_frame [OF none(3)]
    have a: "\<exists>ms0 st2 data2 c.
      (if p = ''@jupyterlab/all-packages''
       then ensureAllPackages e (verifyDependencies e dname data st)
       else Inr ([], verifyDependencies e dname data st)) = Inr (ms0, st2) \<and>
      cache st2 dname = Some data2 \<and>
      ensurePackageData e data2 dname st2 = Inr (c, st') \<and>
      ms = (if c then ms0 @ [''Package data changed''] else ms0)"
      using sp none(1,3,4) by blast
    have b: "p \<noteq> ''@jupyterlab/all-packages'' \<longrightarrow>
       (ms = [] \<or> ms = [''Package data changed'']) \<and>
       cache st' = cache (verifyDependencies e dname data st) \<and>
       seenDeps st' = seenDeps (verifyDependencies e dname data st) \<and>
       files st' = files st"
    proof
      assume "p \<noteq> ''@jupyterlab/all-packages''"
      with sp have "ms0 = []" "st2 = verifyDependencies e dname data st" by simp_all
      then show "(ms = [] \<or> ms = [''Package data changed'']) \<and>
       cache st' = cache (verifyDependencies e dname data st) \<and>
       seenDeps st' = seenDeps (verifyDependencies e dname data st) \<and>
       files st' = files st"
        using none(4) pf verifyDependencies_props(2) [OF refl, of e dname data st]
        by (cases c) simp_all
    qed
    have m0: "\<forall>m\<in>set ms0. (\<exists>n. m = ''Updated: '' @ n) \<or> m = ''Package data changed'' \<or>
        m = ''Index changed''"
    proof (cases "p = ''@jupyterlab/all-packages''")
      case True
      with sp have "ensureAllPackages e (verifyDependencies e dname data st) = Inr (ms0, st2)"
        by simp
      then show ?thesis by (rule ensureAllPackages_messages)
    next
      case False
      with sp show ?thesis by simp
    qed
    have c: "\<forall>n. ''Missing dependency: '' @ n \<notin> set ms \<and> ''Unused dependency: '' @ n \<notin> set ms"
    proof (intro allI conjI notI)
      fix n assume "''Missing dependency: '' @ n \<in> set ms"
      then have "''Missing dependency: '' @ n \<in> set ms0 \<or>
          ''Missing dependency: '' @ n = ''Package data changed''"
        using none(4) by (cases c) auto
      then show False
      proof
        assume "''Missing dependency: '' @ n \<in> set ms0"
        from m0 [rule_format, OF this] show False by simp
      next
        assume "''Missing dependency: '' @ n = ''Package data changed''"
        then show False by simp
      qed
    next
      fix n assume "''Unused dependency: '' @ n \<in> set ms"
      then have "''Unused dependency: '' @ n \<in> set ms0 \<or>
          ''Unused dependency: '' @ n = ''Package data changed''"
        using none(4) by (cases c) auto
      then show False
      proof
        assume "''Unused dependency: '' @ n \<in> set ms0"
        from m0 [rule_format, OF this] show False by simp
      next
        assume "''Unused dependency: '' @ n = ''Package data changed''"
        then show False by simp
      qed
    qed
    show ?thesis by (rule conjI [OF a conjI [OF b c]])
  qed
qed

theorem no_source_files_witness:
  "js_get (pkgPaths c7_loaded) ''@jupyterlab/all-packages'' = Some ''/repo/packages/meta'' \<and>
   sourceFiles c7_env ''/repo/packages/meta'' = [] \<and>
   (case ensurePackage c7_env ''@jupyterlab/all-packages'' c7_loaded of
      Inl err \<Rightarrow> False
    | Inr (ms, st') \<Rightarrow>
        ''Missing dependency: @jupyterlab/everything'' \<notin> set ms \<and>
        ms = [''Updated: @jupyterlab/all-packages'', ''Package data changed'', ''Index changed''])"
proof -
  have r: "\<not> isl (ensurePackage c7_env ''@jupyterlab/all-packages'' c7_loaded)"
    by code_simp
  then obtain ms st' where
    run: "ensurePackage c7_env ''@jupyterlab/all-packages'' c7_loaded = Inr (ms, st')"
    by (metis sum.collapse(2) surj_pair)
  have p: "js_get (pkgPaths c7_loaded) ''@jupyterlab/all-packages'' = Some ''/repo/packages/meta''"
    by code_simp
  have c: "cache c7_loaded ''/repo/packages/meta'' =
      Some \<lparr>name = ''@jupyterlab/all-packages'', version = ''0.1.0'', dependencies = [],
        devDependencies = []\<rparr>"
    by code_simp
  have s: "sourceFiles c7_env ''/repo/packages/meta'' = []"
    by code_simp
  have "fst (projr (ensurePackage c7_env ''@jupyterlab/all-packages'' c7_loaded)) =
      [''Updated: @jupyterlab/all-packages'', ''Package data changed'', ''Index changed'']"
    by code_simp
  then have ms: "ms = [''Updated: @jupyterlab/all-packages'', ''Package data changed'',
      ''Index changed'']"
    using run by simp
  note t = no_source_files [OF run p c s, THEN conjunct2, THEN conjunct2, rule_format,
    of "''@jupyterlab/everything''", THEN conjunct1]
  show ?thesis
    unfolding run using t p s ms by simp
qed

section \<open>Claim C8: the order of validation\<close>

text \<open>
  C8 (as stated, refuted). The packages are validated in ascending order of their names.
  The loop of lines 278 to 283 is a \<open>for ... in\<close> over \<open>pkgData\<close>, whose keys come in the
  order in which the manifests were loaded. The directory \<open>packages/a\<close> holds the package
  \<open>zeta\<close> and \<open>packages/b\<close> the package \<open>alpha\<close>: \<open>zeta\<close> is validated and reported first.
\<close>

theorem validation_order_counterexample:
  "js_keys (pkgPaths (fold loadPackage (lernaPackages order_env) (fresh order_disk))) =
     [''zeta'', ''alpha''] \<and>
   ensureIntegrity order_env (fresh order_disk) =
     bindE (ensureTop order_env (fold loadPackage (lernaPackages order_env) (fresh order_disk)))
       (\<lambda>(topMessage, st1). foldE (validate order_env) [''zeta'', ''alpha'']
          (case topMessage of None \<Rightarrow> [] | Some m \<Rightarrow> js_set [] ''top'' (Top m), st1)) \<and>
   map_sum id (\<lambda>r. fst r) (ensureIntegrity order_env (fresh order_disk)) =
     Inr [(''zeta'', Messages [''Package data changed'']),
          (''alpha'', Messages [''Package data changed''])] \<and>
   sort [''zeta'', ''alpha''] = [''alpha'', ''zeta'']"
proof -
  have k: "js_keys (pkgPaths (fold loadPackage (lernaPackages order_env) (fresh order_disk))) =
     [''zeta'', ''alpha'']"
    by code_simp
  have t: "\<not> isl (ensureTop order_env (fold loadPackage (lernaPackages order_env) (fresh order_disk)))"
    by code_simp
  then obtain tm st1 where top:
    "ensureTop order_env (fold loadPackage (lernaPackages order_env) (fresh order_disk)) = Inr (tm, st1)"
    by (metis sum.collapse(2) surj_pair)
  have p: "pkgPaths st1 = pkgPaths (fold loadPackage (lernaPackages order_env) (fresh order_disk))"
    using ensureTop_frame [OF top] by simp
  have e: "ensureIntegrity order_env (fresh order_disk) =
     bindE (ensureTop order_env (fold loadPackage (lernaPackages order_env) (fresh order_disk)))
       (\<lambda>(topMessage, st1). foldE (validate order_env) [''zeta'', ''alpha'']
          (case topMessage of None \<Rightarrow> [] | Some m \<Rightarrow> js_set [] ''top'' (Top m), st1))"
    unfolding ensureIntegrity_def top by (simp add: bindE_def p k)
  have r: "map_sum id (\<lambda>r. fst r) (ensureIntegrity order_env (fresh order_disk)) =
     Inr [(''zeta'', Messages [''Package data changed'']),
          (''alpha'', Messages [''Package data changed''])]"
    by code_simp
  have s: "sort [''zeta'', ''alpha''] = [''alpha'', ''zeta'']"
    by code_simp
  show ?thesis using k e r s by simp
qed

text \<open>
  C8 (amended). The packages are validated in the order in which \<open>for ... in\<close> lists the
  keys of \<open>pkgData\<close>: first the names that are array indices, in ascending numeric order,
  then the other names in the order in which a manifest of that name was first loaded,
  that is the order of the directories that the patterns of \<open>lerna.json\<close> yield. (A
  package named \<open>__proto__\<close> would replace the prototype of \<open>pkgData\<close> and is excluded.)
\<close>

theorem validation_order:
  assumes "''__proto__'' \<notin> set (loadedNames st (lernaPackages e))"
  shows "ensureIntegrity e (fresh st) =
     bindE (ensureTop e (fold loadPackage (lernaPackages e) (fresh st)))
       (\<lambda>(topMessage, st1).
          foldE (validate e) (enumeration (firsts (loadedNames st (lernaPackages e))))
            (case topMessage of None \<Rightarrow> [] | Some m \<Rightarrow> js_set [] ''top'' (Top m), st1))"
proof (cases "ensureTop e (fold loadPackage (lernaPackages e) (fresh st))")
  case (Inl err)
  then show ?thesis by (simp add: ensureIntegrity_def bindE_def)
next
  case (Inr r)
  obtain t st1 where r: "r = (t, st1)" by (cases r)
  have "pkgPaths st1 = pkgPaths (fold loadPackage (lernaPackages e) (fresh st))"
    using ensureTop_frame [OF Inr [unfolded r]] by simp
  then have "js_keys (pkgPaths st1) = enumeration (firsts (loadedNames st (lernaPackages e)))"
    by (simp add: loaded_order)
  then show ?thesis using Inr r by (simp add: ensureIntegrity_def bindE_def)
qed

theorem validation_order_witness:
  "''__proto__'' \<notin> set (loadedNames order_disk (lernaPackages order_env)) \<and>
   enumeration (firsts (loadedNames order_disk (lernaPackages order_env))) = [''zeta'', ''alpha''] \<and>
   ensureIntegrity order_env (fresh order_disk) =
     bindE (ensureTop order_env (fold loadPackage (lernaPackages order_env) (fresh order_disk)))
       (\<lambda>(topMessage, st1).
          foldE (validate order_env) (enumeration (firsts (loadedNames order_disk (lernaPackages order_env))))
            (case topMessage of None \<Rightarrow> [] | Some m \<Rightarrow> js_set [] ''top'' (Top m), st1))"
proof -
  have n: "loadedNames order_disk (lernaPackages order_env) = [''zeta'', ''alpha'']"
    by code_simp
  have h: "''__proto__'' \<notin> set (loadedNames order_disk (lernaPackages order_env))"
    unfolding n by simp
  have o: "enumeration (firsts (loadedNames order_disk (lernaPackages order_env))) = [''zeta'', ''alpha'']"
    by code_simp
  show ?thesis
    using validation_order [OF h] h o by simp
qed

section \<open>Claim C9: devDependencies hoisted to the root manifest\<close>

text \<open>
  C9 (as stated, refuted). After \<open>ensureTop\<close> the root manifest holds every devDependency
  of every workspace package at the canonical version. \<open>ensureTop\<close> runs before any
  version is made consistent and copies what the manifests declare: package \<open>A\<close>
  declares \<open>typescript\<close> at \<open>~2.4.1\<close>, the lookup answers \<open>^1.0.0\<close>, and the root keeps
  \<open>~2.4.1\<close> also at the end of the run, when \<open>A\<close> itself holds \<open>^1.0.0\<close>.
\<close>

theorem root_devDependencies_counterexample:
  "map_option devDependencies (cache ex_loaded ''/repo/packages/a'') =
     Some [(''typescript'', ''~2.4.1'')] \<and>
   getDependency ex_env ''typescript'' = ''^1.0.0'' \<and>
   map_sum id (\<lambda>r. map_option devDependencies (cache (snd r) ''/repo''))
     (ensureTop ex_env ex_loaded) = Inr (Some [(''typescript'', ''~2.4.1'')]) \<and>
   map_sum id (\<lambda>r. (map_option devDependencies (cache (snd r) ''/repo''),
       map_option devDependencies (cache (snd r) ''/repo/packages/a'')))
     (ensureIntegrity ex_env ex_disk) =
     Inr (Some [(''typescript'', ''~2.4.1'')], Some [(''typescript'', ''^1.0.0'')])"
  by code_simp

text \<open>
  C9 (amended). After \<open>ensureTop\<close>, for every directory of \<open>packages/*\<close> and every key
  \<open>d\<close> of the devDependencies of its package, the devDependencies of the root manifest
  contain \<open>d\<close>, with a version that the manifest of one of these packages declares for
  \<open>d\<close> (not the canonical one).
\<close>

theorem root_devDependencies:
  assumes "ensureTop e st = Inr (t, st')" and "q \<in> set (localPackages e)"
    and "pkgData st' (nameOf st' q) = Some data"
    and "d \<in> fst ` set (devDependencies data)"
  shows "\<exists>root v. cache st' (basePath e) = Some root \<and>
    js_get (devDependencies root) d = Some v \<and>
    (\<exists>q'\<in>set (localPackages e). \<exists>data'. pkgData st' (nameOf st' q') = Some data' \<and>
       (d, v) \<in> set (devDependencies data'))"
  using assms(1)
proof (cases rule: ensureTop_cases)
  case (1 root0 st1 st2 root' c)
  note rq = require_cases [OF 1(1)]
  have c1: "cache st1 (basePath e) = Some root0" using rq by simp
  note hl = hoist_loop [OF 1(2) c1]
  note fr = hl [THEN conjunct1]
  note pf = ensurePackageData_frame [OF 1(4)]
  have same: "pkgPaths st' = pkgPaths st2" "pkgNames st' = pkgNames st2" "cache st' = cache st2"
    using pf by simp_all
  have pd: "pkgData st' n = pkgData st2 n" for n
    by (simp add: pkgData_def same split: option.split)
  have nm: "nameOf st' p = nameOf st2 p" for p
    by (simp add: nameOf_def same split: option.split)
  have cr: "cache st' (basePath e) = Some root'" using same 1(3) by simp
  from hl [THEN conjunct2] 1(3) have
    keys: "\<forall>q\<in>set (localPackages e). \<forall>data. pkgData st2 (nameOf st2 q) = Some data \<longrightarrow>
             fst ` set (devDependencies data) \<subseteq> fst ` set (devDependencies root')"
    and inv: "(\<forall>q\<in>set (localPackages e). \<not> aliased e st1 q) \<longrightarrow>
             (\<forall>q\<in>set (localPackages e). \<forall>data d. pkgData st1 (nameOf st1 q) = Some data \<and>
                d \<in> fst ` set (devDependencies data) \<longrightarrow>
                (\<exists>v. js_get (devDependencies root') d = Some v \<and>
                   (\<exists>q'\<in>set (localPackages e). \<exists>data'. pkgData st1 (nameOf st1 q') = Some data' \<and>
                      (d, v) \<in> set (devDependencies data'))))"
    by auto
  have "pkgData st2 (nameOf st2 q) = Some data" using assms(3) by (simp add: pd nm)
  from keys [rule_format, OF assms(2) this] assms(4)
  have "d \<in> fst ` set (devDependencies root')" by (rule subsetD)
  then obtain v where v: "js_get (devDependencies root') d = Some v"
    by (metis js_get_None not_Some_eq)
  show ?thesis
  proof (cases "\<exists>q'\<in>set (localPackages e). aliased e st1 q'")
    case True
    then obtain q' where q': "q' \<in> set (localPackages e)" "aliased e st1 q'" by blast
    have "pkgData st2 (nameOf st2 q') = cache st2 (basePath e)"
      using pkgData_aliased [OF fr [THEN conjunct1] fr [THEN conjunct2, THEN conjunct1] q'(2)] .
    then have "pkgData st' (nameOf st' q') = Some root'" using 1(3) by (simp add: pd nm)
    moreover have "(d, v) \<in> set (devDependencies root')" using v by (rule js_get_Some_mem)
    ultimately show ?thesis using cr v q'(1) by blast
  next
    case False
    then have na: "\<forall>q\<in>set (localPackages e). \<not> aliased e st1 q" by simp
    have unch: "pkgData st2 (nameOf st2 p) = pkgData st1 (nameOf st1 p)"
      if "p \<in> set (localPackages e)" for p
      using pkgData_other [OF fr [THEN conjunct1] fr [THEN conjunct2, THEN conjunct1]
          fr [THEN conjunct2, THEN conjunct2, THEN conjunct2, THEN conjunct2, THEN conjunct2]
          na [rule_format, OF that]] .
    have "pkgData st1 (nameOf st1 q) = Some data"
      using assms(2,3) unch by (simp add: pd nm)
    with inv na assms(2,4) obtain v' q' data' where
      r: "js_get (devDependencies root') d = Some v'" "q' \<in> set (localPackages e)"
      "pkgData st1 (nameOf st1 q') = Some data'" "(d, v') \<in> set (devDependencies data')"
      by blast
    have "pkgData st' (nameOf st' q') = Some data'"
      using r(2,3) unch by (simp add: pd nm)
    then show ?thesis using cr r by blast
  qed
qed

theorem root_devDependencies_witness:
  "map_option devDependencies (pkgData ex_loaded (nameOf ex_loaded ''/repo/packages/a'')) =
     Some [(''typescript'', ''~2.4.1'')] \<and>
   (case ensureTop ex_env ex_loaded of
      Inl err \<Rightarrow> False
    | Inr (t, st') \<Rightarrow>
        map_option (\<lambda>root. js_get (devDependencies root) ''typescript'') (cache st' ''/repo'') \<noteq>
          Some None)"
proof -
  have r: "\<not> isl (ensureTop ex_env ex_loaded)"
    by code_simp
  then obtain t st' where run: "ensureTop ex_env ex_loaded = Inr (t, st')"
    by (metis sum.collapse(2) surj_pair)
  have q: "''/repo/packages/a'' \<in> set (localPackages ex_env)"
    by code_simp
  have "pkgData (snd (projr (ensureTop ex_env ex_loaded)))
      (nameOf (snd (projr (ensureTop ex_env ex_loaded))) ''/repo/packages/a'') =
      Some \<lparr>name = ''A'', version = ''0.1.0'', dependencies = [],
        devDependencies = [(''typescript'', ''~2.4.1'')]\<rparr>"
    by code_simp
  then have p: "pkgData st' (nameOf st' ''/repo/packages/a'') =
      Some \<lparr>name = ''A'', version = ''0.1.0'', dependencies = [],
        devDependencies = [(''typescript'', ''~2.4.1'')]\<rparr>"
    using run by simp
  have p0: "map_option devDependencies (pkgData ex_loaded (nameOf ex_loaded ''/repo/packages/a'')) =
     Some [(''typescript'', ''~2.4.1'')]"
    by code_simp
  from root_devDependencies [OF run q p, of "''typescript''"]
  obtain root v where "cache st' (basePath ex_env) = Some root"
    "js_get (devDependencies root) ''typescript'' = Some v"
    by auto
  moreover have "basePath ex_env = ''/repo''" by code_simp
  ultimately show ?thesis
    unfolding run using p0 by simp
qed

section \<open>Claim C10: devDependencies keep their keys\<close>

text \<open>
  C10. The search for missing and for unused dependencies (and everything else after
  line 65) changes nothing but the \<open>dependencies\<close> of the manifest of the package and
  leaves every other manifest object alone. Over the whole validation loop of
  \<open>ensureIntegrity\<close> every manifest object keeps its name, its version and the keys of
  its \<open>devDependencies\<close>, in their order. After \<open>ensurePackage\<close> every value of the
  \<open>devDependencies\<close> of the package is the cached version.
\<close>

theorem devDependencies_keys_unchanged:
  "(checkImports e p dname ms st = Inr (ms', st') \<longrightarrow>
      (\<exists>data data'. cache st dname = Some data \<and> cache st' dname = Some data' \<and>
         data' = data\<lparr>dependencies := dependencies data'\<rparr>) \<and>
      (\<forall>q. q \<noteq> dname \<longrightarrow> cache st' q = cache st q)) \<and>
   (foldE (validate e) names (report, st) = Inr (report', st2) \<and> cache st q = Some obj \<longrightarrow>
      (\<exists>obj'. cache st2 q = Some obj' \<and> name obj' = name obj \<and> version obj' = version obj \<and>
         map fst (devDependencies obj') = map fst (devDependencies obj))) \<and>
   (ensurePackage e p st = Inr (ms3, st3) \<longrightarrow>
      (\<exists>d obj'. js_get (pkgPaths st) p = Some d \<and> cache st3 d = Some obj' \<and>
         (\<forall>k v. js_get (devDependencies obj') k = Some v \<longrightarrow> seenDeps st3 k = Some v)))"
proof (intro conjI impI)
  assume c: "checkImports e p dname ms st = Inr (ms', st')"
  show "\<exists>data data'. cache st dname = Some data \<and> cache st' dname = Some data' \<and>
         data' = data\<lparr>dependencies := dependencies data'\<rparr>"
    using c by (rule checkImports_dependencies_only)
  show "\<forall>q. q \<noteq> dname \<longrightarrow> cache st' q = cache st q"
    using checkImports_all [OF c] by simp
next
  assume a: "foldE (validate e) names (report, st) = Inr (report', st2) \<and> cache st q = Some obj"
  have "evolved st st2" using a [THEN conjunct1] by (rule validate_loop_evolved)
  then have "\<exists>obj'. cache st2 q = Some obj' \<and> alike obj obj'"
    using a [THEN conjunct2] by (simp add: evolved_def)
  then obtain obj' where "cache st2 q = Some obj'" "alike obj obj'"
    by (elim exE conjE)
  then show "\<exists>obj'. cache st2 q = Some obj' \<and> name obj' = name obj \<and> version obj' = version obj \<and>
         map fst (devDependencies obj') = map fst (devDependencies obj)"
    by (simp add: alike_def)
next
  assume run: "ensurePackage e p st = Inr (ms3, st3)"
  then obtain d where d: "js_get (pkgPaths st) p = Some d"
    by (rule ensurePackage_path)
  note ep = ensurePackage_all [OF run d, THEN conjunct2, THEN conjunct2, THEN conjunct2,
    THEN conjunct2, THEN conjunct1]
  then obtain obj' where o: "cache st3 d = Some obj' \<and>
      settled (seenDeps st3) (devDependencies obj') \<and>
      (\<forall>k v. js_get (dependencies obj') k = Some v \<longrightarrow>
         seenDeps st3 k = Some v \<or> (d = allPackagesPath e \<and> caret st3 k v))" ..
  have "\<forall>k v. js_get (devDependencies obj') k = Some v \<longrightarrow> seenDeps st3 k = Some v"
    using o by (simp add: settled_def)
  with d o show "\<exists>d obj'. js_get (pkgPaths st) p = Some d \<and> cache st3 d = Some obj' \<and>
         (\<forall>k v. js_get (devDependencies obj') k = Some v \<longrightarrow> seenDeps st3 k = Some v)"
    by blast
qed

theorem devDependencies_keys_unchanged_witness:
  "(case foldE (validate ex_env) [''A'', ''B''] ([], ex_loaded) of
      Inl err \<Rightarrow> False
    | Inr (report', st') \<Rightarrow>
        map_option (\<lambda>obj. map fst (devDependencies obj)) (cache ex_loaded ''/repo/packages/a'') =
          Some [''typescript''] \<and>
        map_option (\<lambda>obj. map fst (devDependencies obj)) (cache st' ''/repo/packages/a'') =
          Some [''typescript'']) \<and>
   (case ensurePackage ex_env ''A'' ex_loaded of
      Inl err \<Rightarrow> False
    | Inr (ms, st') \<Rightarrow>
        map_option devDependencies (cache st' ''/repo/packages/a'') =
          Some [(''typescript'', ''^1.0.0'')] \<and>
        seenDeps st' ''typescript'' = Some ''^1.0.0'') \<and>
   \<not> isl (checkImports ex_env ''A'' ''/repo/packages/a'' [] ex_loaded)"
proof -
  have l: "\<not> isl (foldE (validate ex_env) [''A'', ''B''] ([], ex_loaded))"
    by code_simp
  then obtain report' st2 where
    loop: "foldE (validate ex_env) [''A'', ''B''] ([], ex_loaded) = Inr (report', st2)"
    by (metis sum.collapse(2) surj_pair)
  have c0: "cache ex_loaded ''/repo/packages/a'' =
      Some \<lparr>name = ''A'', version = ''0.1.0'', dependencies = [],
        devDependencies = [(''typescript'', ''~2.4.1'')]\<rparr>"
    by code_simp
  have r: "\<not> isl (ensurePackage ex_env ''A'' ex_loaded)"
    by code_simp
  then obtain ms st3 where run: "ensurePackage ex_env ''A'' ex_loaded = Inr (ms, st3)"
    by (metis sum.collapse(2) surj_pair)
  have p: "js_get (pkgPaths ex_loaded) ''A'' = Some ''/repo/packages/a''"
    by code_simp
  have v: "map_option devDependencies
      (cache (snd (projr (ensurePackage ex_env ''A'' ex_loaded))) ''/repo/packages/a'') =
      Some [(''typescript'', ''^1.0.0'')]"
    by code_simp
  have k: "\<not> isl (checkImports ex_env ''A'' ''/repo/packages/a'' [] ex_loaded)"
    by code_simp
  then obtain ms' st4 where
    chk: "checkImports ex_env ''A'' ''/repo/packages/a'' [] ex_loaded = Inr (ms', st4)"
    by (metis sum.collapse(2) surj_pair)
  note t = devDependencies_keys_unchanged
    [where e = ex_env and p = "''A''" and dname = "''/repo/packages/a''" and ms = "[]"
      and st = ex_loaded and ms' = ms' and st' = st4 and names = "[''A'', ''B'']"
      and report = "[]" and report' = report' and ?st2.0 = st2 and q = "''/repo/packages/a''"
      and obj = "\<lparr>name = ''A'', version = ''0.1.0'', dependencies = [],
        devDependencies = [(''typescript'', ''~2.4.1'')]\<rparr>" and ?ms3.0 = ms and ?st3.0 = st3]
  note t2 = t [THEN conjunct2, THEN conjunct1, rule_format, OF conjI [OF loop c0]]
  note t3 = t [THEN conjunct2, THEN conjunct2, rule_format, OF run]
  from t2 obtain obj' where o: "cache st2 ''/repo/packages/a'' = Some obj'"
    "map fst (devDependencies obj') = [''typescript'']"
    by auto
  from t3 p obtain obj3 where o3: "cache st3 ''/repo/packages/a'' = Some obj3"
    "\<forall>k v. js_get (devDependencies obj3) k = Some v \<longrightarrow> seenDeps st3 k = Some v"
    by auto
  from v run o3(1) have d3: "devDependencies obj3 = [(''typescript'', ''^1.0.0'')]" by simp
  with o3(2) have s3: "seenDeps st3 ''typescript'' = Some ''^1.0.0''"
    by (simp add: js_get_def)
  show ?thesis
    unfolding loop run using k by (simp add: c0 o o3(1) d3 s3)
qed

end
